theory Spec2Isabelle
  imports Complex_Main
begin

section \<open>Alignment trimming of phyluce (generic\_align.py)\<close>

text \<open>
  A shallow embedding of the class \<open>GenericAlign\<close> of \<open>phyluce/generic_align.py\<close>:
  the column scan \<open>running_average\<close>, the block clipping \<open>stage_one_trimming\<close>, the
  row-by-row \<open>stage_two_trimming\<close> and the three passes of \<open>trim_alignment\<close>.

  Conventions of the embedding.
  \<^item> A \<open>SeqRecord\<close> is a record of its id, name, description and sequence text; a
    \<open>MultipleSeqAlignment\<close> is the list of its records. The class only ever holds rows of
    one length (\<open>append\<close> refuses any other), which is the predicate \<open>rectangular\<close>.
    Alphabets are not modelled.
  \<^item> Every Python exception the code can raise is a value \<open>Inl e\<close>; the Python value
    \<open>None\<close> in the place of an alignment is \<open>None\<close> of an option type.
  \<^item> The floating-point numbers of the source (weights, running averages, thresholds,
    the product \<open>proportion * taxa\<close> behind the majority count) are exact rationals here.
    Where a sum or a product of the source comes within rounding error of a threshold, or
    of a half before rounding, its double arithmetic can decide the other way than the
    exact value does.
  \<^item> The library routines the source calls are written out with the behaviour they have
    in the libraries: \<open>numpy.convolve\<close> in mode \<open>same\<close>, \<open>collections.Counter\<close>,
    the regular expressions of \<open>_get_ends\<close>, and the consensus routine
    \<open>Bio.Align.AlignInfo.SummaryInfo.dumb_consensus\<close>.
\<close>

subsection \<open>Data model\<close>

datatype py_error = IndexError | ValueError | AttributeError | TypeError | UnboundLocalError

record seq_record =
  rec_id :: string
  rec_name :: string
  rec_description :: string
  rec_seq :: string

type_synonym alignment = "seq_record list"

text \<open>\<open>len(alignment)\<close> is \<open>length\<close>; \<open>get_alignment_length\<close> is the largest row length
  (0 for no rows), as in Biopython.\<close>

definition get_alignment_length :: "alignment \<Rightarrow> nat" where
  "get_alignment_length a =
     fold (\<lambda>r max_length. if length (rec_seq r) > max_length then length (rec_seq r) else max_length) a 0"

definition rectangular :: "alignment \<Rightarrow> bool" where
  "rectangular a = list_all (\<lambda>r. length (rec_seq r) = get_alignment_length a) a"

text \<open>The inputs that may reach the trimming engine: at least one row, positive width,
  all rows of the same length.\<close>

definition valid_alignment :: "alignment \<Rightarrow> bool" where
  "valid_alignment a = (a \<noteq> [] \<and> 0 < get_alignment_length a \<and> rectangular a)"

text \<open>\<open>alignment[:, column]\<close>: the characters of one column, top row first.\<close>

definition column :: "alignment \<Rightarrow> nat \<Rightarrow> string" where
  "column a c = map (\<lambda>r. rec_seq r ! c) a"

text \<open>A Python slice \<open>xs[start:stop]\<close> with non-negative bounds; bounds beyond the end are
  clipped.\<close>

definition py_slice :: "nat \<Rightarrow> nat \<Rightarrow> 'a list \<Rightarrow> 'a list" where
  "py_slice start stop xs = drop start (take stop xs)"

text \<open>Slicing a \<open>SeqRecord\<close> keeps id, name and description.\<close>

definition record_slice :: "nat \<Rightarrow> nat \<Rightarrow> seq_record \<Rightarrow> seq_record" where
  "record_slice start stop r = r\<lparr>rec_seq := py_slice start stop (rec_seq r)\<rparr>"

text \<open>\<open>_record_formatter(trim, name)\<close>.\<close>

definition record_formatter :: "string \<Rightarrow> string \<Rightarrow> seq_record" where
  "record_formatter trim name =
     \<lparr>rec_id = name, rec_name = name, rec_description = name, rec_seq = trim\<rparr>"

text \<open>In \<open>set(trim) != (['?'])\<close> the right-hand side is a list, not a set. Python never
  finds a set equal to a list, so this comparison is true for every \<open>trim\<close>.\<close>

definition py_set_ne_list :: "char set \<Rightarrow> string \<Rightarrow> bool" where
  "py_set_ne_list s l = True"

text \<open>The test both trimming stages apply to a row before keeping it.\<close>

definition keeps_row :: "string \<Rightarrow> bool" where
  "keeps_row trim = (set trim \<noteq> {CHR ''-''} \<and> py_set_ne_list (set trim) ''?'')"

subsection \<open>collections.Counter\<close>

text \<open>A \<open>Counter\<close> over the characters of a string, as an association list with one
  entry per distinct character. The code reads only counts from it, never the order of
  the entries.\<close>

definition counter :: "string \<Rightarrow> (char \<times> nat) list" where
  "counter s = map (\<lambda>c. (c, count_list s c)) (remdups s)"

text \<open>\<open>column_count[c]\<close>: a missing key counts 0.\<close>

definition counter_get :: "(char \<times> nat) list \<Rightarrow> char \<Rightarrow> nat" where
  "counter_get cnt c = (case map_of cnt c of None \<Rightarrow> 0 | Some n \<Rightarrow> n)"

text \<open>\<open>del column_count[c]\<close>: no error for a missing key.\<close>

definition counter_del :: "(char \<times> nat) list \<Rightarrow> char \<Rightarrow> (char \<times> nat) list" where
  "counter_del cnt c = filter (\<lambda>kv. fst kv \<noteq> c) cnt"

text \<open>\<open>most_common(1)\<close>: the empty list for an empty counter, else one entry of the
  largest count.\<close>

definition most_common1 :: "(char \<times> nat) list \<Rightarrow> (char \<times> nat) list" where
  "most_common1 cnt =
     (case cnt of [] \<Rightarrow> []
      | e # es \<Rightarrow> [fold (\<lambda>x best. if snd best < snd x then x else best) es e])"

subsection \<open>numpy.convolve in mode same\<close>

text \<open>Entry \<open>p\<close> of the full discrete convolution of \<open>a\<close> and \<open>v\<close>.\<close>

definition conv_full :: "rat list \<Rightarrow> rat list \<Rightarrow> nat \<Rightarrow> rat" where
  "conv_full a v p =
     sum_list (map (\<lambda>j. if j \<le> p \<and> p - j < length v then a ! j * v ! (p - j) else 0) [0..<length a])"

text \<open>\<open>numpy.convolve(a, v, 'same')\<close>: the arguments are swapped when \<open>v\<close> is the longer
  one, an empty argument raises \<open>ValueError\<close>, and the result has the length of the
  longer argument: the entries of the full convolution from position
  \<open>(n - 1) div 2\<close> on, \<open>n\<close> the length of the shorter argument.\<close>

definition np_convolve_same :: "rat list \<Rightarrow> rat list \<Rightarrow> py_error + rat list" where
  "np_convolve_same a0 v0 =
     (let a = (if length a0 < length v0 then v0 else a0);
          v = (if length a0 < length v0 then a0 else v0)
      in if a = [] then Inl ValueError
         else if v = [] then Inl ValueError
         else Inr (map (\<lambda>k. conv_full a v (k + (length v - 1) div 2)) [0..<length a]))"

text \<open>\<open>numpy.repeat(1.0, window_size) / window_size\<close>; a negative count raises
  \<open>ValueError\<close>.\<close>

definition np_weight :: "int \<Rightarrow> py_error + rat list" where
  "np_weight window_size =
     (if window_size < 0 then Inl ValueError
      else Inr (replicate (nat window_size) (1 / of_int window_size)))"

subsection \<open>Stage 1: running\_average and stage\_one\_trimming\<close>

text \<open>Python 2 \<open>round\<close>: to the nearest integer, halves away from zero.\<close>

definition py2_round :: "rat \<Rightarrow> int" where
  "py2_round x = (if 0 \<le> x then \<lfloor>x + 1 / 2\<rfloor> else \<lceil>x - 1 / 2\<rceil>)"

text \<open>The body of the column loop of \<open>running_average\<close> for one column: the value
  appended to \<open>good_alignment\<close>, or the \<open>IndexError\<close> of \<open>most_common(1)[0]\<close> on a
  counter that is empty once the gap marker is deleted.\<close>

definition column_good :: "string \<Rightarrow> int \<Rightarrow> py_error + bool" where
  "column_good col majority_of_characters =
     (let column_count = counter col
      in if int (counter_get column_count CHR ''-'') \<le> majority_of_characters
         then (case most_common1 (counter_del column_count CHR ''-'') of
                 [] \<Rightarrow> Inl IndexError
               | e # _ \<Rightarrow> Inr (majority_of_characters \<le> int (snd e)))
         else Inr False)"

text \<open>The column loop: the first exception ends it.\<close>

fun score_columns :: "string list \<Rightarrow> int \<Rightarrow> py_error + bool list" where
  "score_columns [] m = Inr []"
| "score_columns (col # cols) m =
     (case column_good col m of
        Inl e \<Rightarrow> Inl e
      | Inr g \<Rightarrow> (case score_columns cols m of Inl e \<Rightarrow> Inl e | Inr gs \<Rightarrow> Inr (g # gs)))"

text \<open>\<open>numpy.where(running_average >= threshold)[0]\<close>, then its first and last entry;
  \<open>None\<close> stands for the pair \<open>(None, None)\<close> of the \<open>except IndexError\<close> branch.\<close>

definition clip_points :: "rat list \<Rightarrow> rat \<Rightarrow> (nat \<times> nat) option" where
  "clip_points ra threshold =
     (let good = filter (\<lambda>k. threshold \<le> ra ! k) [0..<length ra]
      in case good of [] \<Rightarrow> None | _ \<Rightarrow> Some (hd good, last good))"

text \<open>The list \<open>good_alignment\<close> at the end of the column loop.\<close>

definition good_alignment :: "alignment \<Rightarrow> rat \<Rightarrow> py_error + bool list" where
  "good_alignment alignment proportion =
     (let taxa = length alignment;
          majority_of_characters = py2_round (proportion * of_nat taxa)
      in score_columns (map (column alignment) [0..<get_alignment_length alignment])
           majority_of_characters)"

definition running_average ::
  "alignment \<Rightarrow> int \<Rightarrow> rat \<Rightarrow> rat \<Rightarrow> py_error + (nat \<times> nat) option" where
  "running_average alignment window_size threshold proportion =
     (case good_alignment alignment proportion of
        Inl e \<Rightarrow> Inl e
      | Inr good \<Rightarrow>
          (case np_weight window_size of
             Inl e \<Rightarrow> Inl e
           | Inr weight \<Rightarrow>
               (case np_convolve_same (map of_bool good) weight of
                  Inl e \<Rightarrow> Inl e
                | Inr ra \<Rightarrow> Inr (clip_points ra threshold))))"

text \<open>The row loop of \<open>stage_one_trimming\<close>. \<open>clip\<close> is the pair returned by
  \<open>running_average\<close>; the test \<open>start >= 0 and end\<close> fails for \<open>None\<close> and for
  \<open>end = 0\<close>. \<open>s1_trimmed\<close> collects the rows kept so far.\<close>

fun clip_rows :: "(nat \<times> nat) option \<Rightarrow> alignment \<Rightarrow> alignment \<Rightarrow> alignment option" where
  "clip_rows clip [] s1_trimmed = Some s1_trimmed"
| "clip_rows clip (sequence # rest) s1_trimmed =
     (case clip of
        None \<Rightarrow> None
      | Some (start, stop) \<Rightarrow>
          if stop \<noteq> 0
          then (let trim = record_slice start stop sequence
                in if keeps_row (rec_seq trim)
                   then clip_rows clip rest (s1_trimmed @ [trim])
                   else None)
          else None)"

text \<open>\<open>stage_one_trimming\<close>; on the Python value \<open>None\<close> the call \<open>len(alignment)\<close>
  raises \<open>TypeError\<close>.\<close>

definition stage_one_trimming ::
  "alignment option \<Rightarrow> int \<Rightarrow> rat \<Rightarrow> rat \<Rightarrow> py_error + alignment option" where
  "stage_one_trimming alignment window_size threshold proportion =
     (case alignment of
        None \<Rightarrow> Inl TypeError
      | Some a \<Rightarrow>
          (case running_average a window_size threshold proportion of
             Inl e \<Rightarrow> Inl e
           | Inr clip \<Rightarrow> Inr (clip_rows clip a [])))"

subsection \<open>The consensus\<close>

text \<open>\<open>dumb_consensus\<close> of Biopython with its defaults (threshold 0.7, ambiguous
  character \<open>X\<close>, \<open>require_multiple = 0\<close>), for column \<open>n\<close>: the characters other than
  \<open>-\<close> and \<open>.\<close> of the rows long enough are counted in \<open>atom_dict\<close>; \<open>max_atoms\<close>
  collects the characters of the largest count; a character is called only when it is
  alone in \<open>max_atoms\<close> and holds at least the threshold share of the counted
  characters.\<close>

definition column_atoms :: "alignment \<Rightarrow> nat \<Rightarrow> string" where
  "column_atoms a n =
     filter (\<lambda>c. c \<noteq> CHR ''-'' \<and> c \<noteq> CHR ''.'')
       (map (\<lambda>r. rec_seq r ! n) (filter (\<lambda>r. n < length (rec_seq r)) a))"

definition max_atoms_step :: "char \<times> nat \<Rightarrow> string \<times> nat \<Rightarrow> string \<times> nat" where
  "max_atoms_step kv acc =
     (if snd acc < snd kv then ([fst kv], snd kv)
      else if snd kv = snd acc then (fst acc @ [fst kv], snd acc)
      else acc)"

definition consensus_char :: "string \<Rightarrow> char" where
  "consensus_char atoms =
     (let atom_dict = counter atoms;
          num_atoms = length atoms;
          (max_atoms, max_size) = fold max_atoms_step atom_dict ([], 0)
      in if length max_atoms = 1 \<and> (7 / 10 :: rat) \<le> of_nat max_size / of_nat num_atoms
         then hd max_atoms
         else CHR ''X'')"

definition dumb_consensus :: "alignment \<Rightarrow> string" where
  "dumb_consensus a = map (\<lambda>n. consensus_char (column_atoms a n)) [0..<get_alignment_length a]"

text \<open>\<open>_alignment_consensus\<close>: the consensus with every \<open>X\<close> replaced by the gap
  marker.\<close>

definition alignment_consensus :: "alignment \<Rightarrow> string" where
  "alignment_consensus a = map (\<lambda>c. if c = CHR ''X'' then CHR ''-'' else c) (dumb_consensus a)"

subsection \<open>Stage 2: stage\_two\_trimming\<close>

text \<open>\<open>_get_ends\<close>: the length of the leading run of gap markers, and the length of
  the row minus the length of its trailing run.\<close>

definition get_ends :: "string \<Rightarrow> nat \<times> nat" where
  "get_ends s =
     (let start_gap = length (takeWhile (\<lambda>c. c = CHR ''-'') s);
          end_gap = length (takeWhile (\<lambda>c. c = CHR ''-'') (rev s))
      in (start_gap, length s - end_gap))"

text \<open>\<open>compare = (seq_array == consensus_array[start:end])\<close>: character by character,
  as numpy compares them (exact equality of characters).\<close>

definition row_compare :: "string \<Rightarrow> string \<Rightarrow> bool list" where
  "row_compare consensus s =
     (let (start, stop) = get_ends s
      in map (\<lambda>(x, y). x = y) (zip (py_slice start stop s) (py_slice start stop consensus)))"

text \<open>\<open>gm = (running_average > 0.99)\<close> for the running average of \<open>compare\<close>.\<close>

definition row_gm :: "bool list \<Rightarrow> int \<Rightarrow> py_error + bool list" where
  "row_gm compare window_size =
     (case np_weight window_size of
        Inl e \<Rightarrow> Inl e
      | Inr weight \<Rightarrow>
          (case np_convolve_same (map of_bool compare) weight of
             Inl e \<Rightarrow> Inl e
           | Inr ra \<Rightarrow> Inr (map (\<lambda>x. 99 / 100 < x) ra)))"

text \<open>The scanning loop \<open>for i in xrange(gm.size): if numpy.all(gm[i:i+5] == True): ... break\<close>:
  the first \<open>i\<close> whose slice holds only \<open>True\<close>, or \<open>None\<close> when the loop ends without
  assigning.\<close>

definition find_run :: "bool list \<Rightarrow> nat option" where
  "find_run gm = List.find (\<lambda>i. list_all (\<lambda>b. b) (py_slice i (i + 5) gm)) [0..<length gm]"

text \<open>\<open>orig_seq_array[:k] = '-'\<close> and \<open>orig_seq_array[k:] = '-'\<close>.\<close>

definition mask_before :: "nat \<Rightarrow> string \<Rightarrow> string" where
  "mask_before k s = replicate (min k (length s)) CHR ''-'' @ drop k s"

definition mask_from :: "nat \<Rightarrow> string \<Rightarrow> string" where
  "mask_from k s = take k s @ replicate (length s - k) CHR ''-''"

text \<open>The row loop of \<open>stage_two_trimming\<close>. The variables \<open>bad_start\<close> and
  \<open>bad_end\<close> live across the iterations: \<open>None\<close> while unassigned, and a scan that
  finds nothing leaves the value of an earlier row in place. Reading an unassigned one
  raises \<open>UnboundLocalError\<close>.\<close>

fun stage_two_rows ::
  "string \<Rightarrow> int \<Rightarrow> nat option \<Rightarrow> nat option \<Rightarrow> alignment \<Rightarrow> alignment
     \<Rightarrow> py_error + alignment option" where
  "stage_two_rows consensus window_size bad_start bad_end [] s2_trimmed = Inr (Some s2_trimmed)"
| "stage_two_rows consensus window_size bad_start bad_end (sequence # rest) s2_trimmed =
     (let start = fst (get_ends (rec_seq sequence));
          orig_seq = rec_seq sequence
      in case row_gm (row_compare consensus orig_seq) window_size of
           Inl e \<Rightarrow> Inl e
         | Inr gm \<Rightarrow>
             (let bad_start' = (case find_run gm of Some i \<Rightarrow> Some i | None \<Rightarrow> bad_start);
                  bad_end' = (case find_run (rev gm) of
                                Some i \<Rightarrow> Some (length gm - i) | None \<Rightarrow> bad_end)
              in case bad_start' of
                   None \<Rightarrow> Inl UnboundLocalError
                 | Some bs \<Rightarrow>
                     (case bad_end' of
                        None \<Rightarrow> Inl UnboundLocalError
                      | Some be \<Rightarrow>
                          (let trim = mask_from (start + be) (mask_before (start + bs) orig_seq)
                           in if keeps_row trim
                              then stage_two_rows consensus window_size bad_start' bad_end' rest
                                     (s2_trimmed @ [record_formatter trim (rec_id sequence)])
                              else Inr None))))"

text \<open>\<open>stage_two_trimming\<close>; on the Python value \<open>None\<close> the consensus routine raises
  \<open>AttributeError\<close>.\<close>

definition stage_two_trimming :: "alignment option \<Rightarrow> int \<Rightarrow> py_error + alignment option" where
  "stage_two_trimming s1_trimmed window_size =
     (case s1_trimmed of
        None \<Rightarrow> Inl AttributeError
      | Some a \<Rightarrow> stage_two_rows (alignment_consensus a) window_size None None a [])"

subsection \<open>The three passes\<close>

text \<open>The result of \<open>trim_alignment\<close>: the value left in \<open>self.trimmed\<close> (\<open>None\<close> for a
  dropped alignment) and the lines printed.\<close>

record trim_result =
  trimmed :: "alignment option"
  printed :: "string list"

text \<open>\<open>not self.trimmed\<close>: true for \<open>None\<close> and for an alignment without rows.\<close>

definition py_not :: "alignment option \<Rightarrow> bool" where
  "py_not t = (case t of None \<Rightarrow> True | Some a \<Rightarrow> a = [])"

text \<open>The report at the end of \<open>trim_alignment\<close>; \<open>_records[0]\<close> of an alignment
  without rows raises \<open>IndexError\<close>.\<close>

definition report_dropped :: "alignment \<Rightarrow> alignment option \<Rightarrow> py_error + trim_result" where
  "report_dropped alignment t =
     (if py_not t
      then (case alignment of
              [] \<Rightarrow> Inl IndexError
            | r # _ \<Rightarrow>
                Inr \<lparr>trimmed = t,
                     printed = [[CHR 0x09] @ ''Alignment '' @ rec_description r
                                  @ '' dropped due to trimming'']\<rparr>)
      else Inr \<lparr>trimmed = t, printed = []\<rparr>)"

definition trim_alignment ::
  "alignment \<Rightarrow> string \<Rightarrow> int \<Rightarrow> rat \<Rightarrow> rat \<Rightarrow> py_error + trim_result" where
  "trim_alignment alignment method window_size threshold proportion =
     (if method = ''notrim'' then report_dropped alignment (Some alignment)
      else (case stage_one_trimming (Some alignment) window_size threshold proportion of
              Inl e \<Rightarrow> Inl e
            | Inr s1_trimmed \<Rightarrow>
                (case stage_two_trimming s1_trimmed 5 of
                   Inl e \<Rightarrow> Inl e
                 | Inr s2_trimmed \<Rightarrow>
                     (case stage_one_trimming s2_trimmed window_size threshold proportion of
                        Inl e \<Rightarrow> Inl e
                      | Inr t \<Rightarrow> report_dropped alignment t))))"

subsection \<open>Example alignments\<close>

text \<open>Four identical rows of 14 characters.\<close>

definition ex_conserved :: alignment where
  "ex_conserved =
     [record_formatter ''ACGTACGTACGTAC'' ''t1'', record_formatter ''ACGTACGTACGTAC'' ''t2'',
      record_formatter ''ACGTACGTACGTAC'' ''t3'', record_formatter ''ACGTACGTACGTAC'' ''t4'']"

text \<open>What the three passes leave of it for window 3, threshold 3/5, proportion 0.65.\<close>

definition ex_conserved_out :: alignment where
  "ex_conserved_out =
     [record_formatter ''GTACGTAC'' ''t1'', record_formatter ''GTACGTAC'' ''t2'',
      record_formatter ''GTACGTAC'' ''t3'', record_formatter ''GTACGTAC'' ''t4'']"

text \<open>Four rows of 6 gap markers.\<close>

definition ex_all_gaps :: alignment where
  "ex_all_gaps =
     [record_formatter ''------'' ''t1'', record_formatter ''------'' ''t2'',
      record_formatter ''------'' ''t3'', record_formatter ''------'' ''t4'']"

text \<open>Twelve columns; the first row agrees with the consensus only where it holds gap
  markers between its two end characters.\<close>

definition ex_gap_core :: alignment where
  "ex_gap_core =
     [record_formatter ''T---------TA'' ''t1'', record_formatter ''AAAAAAAAAAAA'' ''t2'',
      record_formatter ''ACCCCCCCCCAA'' ''t3'', record_formatter ''AGGGGGGGGGAA'' ''t4'']"

text \<open>Three identical rows and one row of missing-data markers.\<close>

definition ex_missing_row :: alignment where
  "ex_missing_row =
     [record_formatter ''ACGTAC'' ''t1'', record_formatter ''??????'' ''t2'',
      record_formatter ''ACGTAC'' ''t3'', record_formatter ''ACGTAC'' ''t4'']"

text \<open>Three identical rows of 12 characters and, second, a row that agrees with them
  in every fourth column only.\<close>

definition ex_no_run :: alignment where
  "ex_no_run =
     [record_formatter ''ACGTACGTACGT'' ''t1'', record_formatter ''TTTTTTTTTTTT'' ''t2'',
      record_formatter ''ACGTACGTACGT'' ''t3'', record_formatter ''ACGTACGTACGT'' ''t4'']"

text \<open>The same rows with the deviating row first.\<close>

definition ex_no_run_first :: alignment where
  "ex_no_run_first =
     [record_formatter ''TTTTTTTTTTTT'' ''t2'', record_formatter ''ACGTACGTACGT'' ''t1'',
      record_formatter ''ACGTACGTACGT'' ''t3'', record_formatter ''ACGTACGTACGT'' ''t4'']"

text \<open>Four identical rows of 18 characters.\<close>

definition ex_short :: alignment where
  "ex_short =
     [record_formatter ''ACGTACGTACGTACGTAC'' ''t1'', record_formatter ''ACGTACGTACGTACGTAC'' ''t2'',
      record_formatter ''ACGTACGTACGTACGTAC'' ''t3'', record_formatter ''ACGTACGTACGTACGTAC'' ''t4'']"

text \<open>One row with a gap marker in its second column.\<close>

definition ex_one_row :: alignment where
  "ex_one_row = [record_formatter ''A-C'' ''t1'']"

text \<open>Two rows whose first column holds gap markers only.\<close>

definition ex_gap_column :: alignment where
  "ex_gap_column = [record_formatter ''-CGTA'' ''t1'', record_formatter ''-CGTA'' ''t2'']"

text \<open>What stage 1 (window 3, threshold 3/5, proportion 0.65) returns for
  \<open>ex_missing_row\<close>, and what stage 2 returns for \<open>ex_no_run\<close>.\<close>

definition ex_missing_row_out :: alignment where
  "ex_missing_row_out =
     [record_formatter ''ACGTA'' ''t1'', record_formatter ''?????'' ''t2'',
      record_formatter ''ACGTA'' ''t3'', record_formatter ''ACGTA'' ''t4'']"

definition ex_no_run_out :: alignment where
  "ex_no_run_out =
     [record_formatter ''--GTACGTAC--'' ''t1'', record_formatter ''--TTTTTTTT--'' ''t2'',
      record_formatter ''--GTACGTAC--'' ''t3'', record_formatter ''--GTACGTAC--'' ''t4'']"

text \<open>What stage 1 (window 3, threshold 3/5, proportion 1/4) returns for
  \<open>ex_gap_core\<close>.\<close>

definition ex_gap_core_clipped :: alignment where
  "ex_gap_core_clipped =
     [record_formatter ''T---------T'' ''t1'', record_formatter ''AAAAAAAAAAA'' ''t2'',
      record_formatter ''ACCCCCCCCCA'' ''t3'', record_formatter ''AGGGGGGGGGA'' ''t4'']"

text \<open>The smoothed match sequence of a row of 12 characters that agrees with the
  consensus everywhere, and of one without a run.\<close>

definition gm_full :: "bool list" where
  "gm_full = [False, False, True, True, True, True, True, True, True, True, False, False]"

definition gm_none :: "bool list" where
  "gm_none = replicate 12 False"

subsection \<open>The stage-1 scan in the words of the specification\<close>

text \<open>These definitions follow the specification (section 4.2), not the source; the
  scan of the source is compared with them below. A column is GOOD when its gap markers do
  not exceed the majority count and its most frequent non-gap character reaches the
  majority count.\<close>

definition spec_column_good :: "string \<Rightarrow> int \<Rightarrow> bool" where
  "spec_column_good col m =
     (\<not> m < int (count_list col CHR ''-'') \<and>
      (\<exists>c\<in>set col. c \<noteq> CHR ''-'' \<and>
         (\<forall>d\<in>set col. d \<noteq> CHR ''-'' \<longrightarrow> count_list col d \<le> count_list col c) \<and>
         m \<le> int (count_list col c)))"

text \<open>The centered moving average at column \<open>k\<close>: the window reaches \<open>w div 2\<close> columns
  to the left and \<open>(w - 1) div 2\<close> to the right, columns outside the alignment count 0,
  and the sum is divided by the full window size.\<close>

definition spec_moving_average :: "bool list \<Rightarrow> nat \<Rightarrow> nat \<Rightarrow> rat" where
  "spec_moving_average scores w k =
     sum_list (map (\<lambda>j. if k \<le> j + w div 2 \<and> j \<le> k + (w - 1) div 2
                         then of_bool (scores ! j) else 0) [0..<length scores]) / of_nat w"

definition spec_scan :: "alignment \<Rightarrow> nat \<Rightarrow> rat \<Rightarrow> rat \<Rightarrow> (nat \<times> nat) option" where
  "spec_scan a w threshold proportion =
     (let m = py2_round (proportion * of_nat (length a));
          scores = map (\<lambda>c. spec_column_good (column a c) m) [0..<get_alignment_length a];
          qualifying = filter (\<lambda>k. threshold \<le> spec_moving_average scores w k)
                         [0..<length scores]
      in if qualifying = [] then None else Some (hd qualifying, last qualifying))"

subsection \<open>The match sequence in the words of the specification\<close>

text \<open>These definitions follow the specification (section 4.3, step 2), which compares
  the row with the consensus without regard to case; the source's comparison is
  \<open>row_compare\<close>. \<open>spec_upper\<close> maps the ASCII lower-case letters to upper case.\<close>

definition spec_upper :: "char \<Rightarrow> char" where
  "spec_upper c = (let n = of_char c :: nat in if 97 \<le> n \<and> n \<le> 122 then char_of (n - 32) else c)"

definition spec_row_compare :: "string \<Rightarrow> string \<Rightarrow> bool list" where
  "spec_row_compare consensus s =
     (let (start, stop) = get_ends s
      in map (\<lambda>(x, y). spec_upper x = spec_upper y)
           (zip (py_slice start stop s) (py_slice start stop consensus)))"

text \<open>Three upper-case rows and the same row in lower case.\<close>

definition ex_lower_row :: alignment where
  "ex_lower_row =
     [record_formatter ''ACGTACGTACGT'' ''t1'', record_formatter ''ACGTACGTACGT'' ''t2'',
      record_formatter ''ACGTACGTACGT'' ''t3'', record_formatter ''acgtacgtacgt'' ''t4'']"

subsection \<open>The consensus in the words of the specification\<close>

text \<open>These definitions follow the specification (section 4.1), not the source: the
  characters of a column are brought to upper case, the gap marker is left out of the
  tally, the winner is the most frequent character, the first one met from the top row
  down among equally frequent ones, and it is called when its count is at least 0.7 of
  the number of rows.\<close>

definition spec_consensus_char :: "string \<Rightarrow> char" where
  "spec_consensus_char col =
     (let norm = map spec_upper col;
          seen = rev (remdups (rev (filter (\<lambda>c. c \<noteq> CHR ''-'') norm)))
      in case seen of
           [] \<Rightarrow> CHR ''-''
         | c # cs \<Rightarrow>
             (let winner = fold (\<lambda>x best. if count_list norm best < count_list norm x
                                           then x else best) cs c
              in if (of_nat (count_list norm winner) :: rat) / of_nat (length col) < 7 / 10
                 then CHR ''-'' else winner))"

definition spec_consensus :: "alignment \<Rightarrow> string" where
  "spec_consensus a = map (\<lambda>n. spec_consensus_char (column a n)) [0..<get_alignment_length a]"

text \<open>Four rows of three columns: two gap markers in the first column, two cases of one
  letter in the second.\<close>

definition ex_consensus :: alignment where
  "ex_consensus =
     [record_formatter ''AAC'' ''t1'', record_formatter ''AAC'' ''t2'',
      record_formatter ''-aC'' ''t3'', record_formatter ''-aC'' ''t4'']"

section \<open>Properties\<close>

subsection \<open>Shape of the outputs of the two stages\<close>

lemma clip_rows_shape:
  "clip_rows clip rows acc = Some b \<Longrightarrow> rows \<noteq> [] \<Longrightarrow>
     \<exists>start stop. clip = Some (start, stop) \<and> stop \<noteq> 0 \<and>
       b = acc @ map (record_slice start stop) rows \<and>
       (\<forall>r\<in>set rows. keeps_row (rec_seq (record_slice start stop r)))"
proof (induction rows arbitrary: acc)
  case Nil
  then show ?case by simp
next
  case (Cons r rows)
  from Cons.prems(1) obtain start stop where c: "clip = Some (start, stop)"
    by (cases clip) auto
  from Cons.prems(1) c have s0: "stop \<noteq> 0" and
    k: "keeps_row (rec_seq (record_slice start stop r))" and
    rec: "clip_rows clip rows (acc @ [record_slice start stop r]) = Some b"
    by (auto simp: Let_def split: if_splits)
  show ?case
  proof (cases rows)
    case Nil
    with rec c s0 k show ?thesis by simp
  next
    case (Cons r' rows')
    then have "rows \<noteq> []" by simp
    from Cons.IH[OF rec this] c k show ?thesis by auto
  qed
qed

lemma rec_id_record_slice: "rec_id (record_slice s e r) = rec_id r"
  by (simp add: record_slice_def)

lemma clip_rows_ids:
  assumes "clip_rows clip rows [] = Some b"
  shows "map rec_id b = map rec_id rows"
proof (cases rows)
  case Nil
  with assms show ?thesis by simp
next
  case (Cons r rs)
  then have "rows \<noteq> []" by simp
  from clip_rows_shape[OF assms this] show ?thesis
    by (auto simp: rec_id_record_slice)
qed

lemma clip_rows_lengths:
  assumes "clip_rows clip rows [] = Some b"
    and "\<forall>r\<in>set rows. length (rec_seq r) = n"
  shows "\<exists>m\<le>n. \<forall>r\<in>set b. length (rec_seq r) = m"
proof (cases rows)
  case Nil
  with assms show ?thesis by auto
next
  case (Cons r rs)
  then have "rows \<noteq> []" by simp
  from clip_rows_shape[OF assms(1) this] obtain start stop
    where b: "b = map (record_slice start stop) rows" by auto
  have "\<forall>r\<in>set b. length (rec_seq r) = min stop n - start"
    using assms(2) by (auto simp: b record_slice_def py_slice_def)
  moreover have "min stop n - start \<le> n" by simp
  ultimately show ?thesis by blast
qed

lemma length_mask: "length (mask_from k (mask_before j s)) = length s"
  by (simp add: mask_from_def mask_before_def)

lemma stage_two_rows_shape:
  "stage_two_rows cons w bs be rows acc = Inr (Some b) \<Longrightarrow>
     map rec_id b = map rec_id acc @ map rec_id rows \<and>
     map (\<lambda>r. length (rec_seq r)) b =
       map (\<lambda>r. length (rec_seq r)) acc @ map (\<lambda>r. length (rec_seq r)) rows"
proof (induction rows arbitrary: bs be acc)
  case Nil
  then show ?case by simp
next
  case (Cons r rows)
  from Cons.prems obtain bs' be' t where
    rec: "stage_two_rows cons w bs' be' rows (acc @ [record_formatter t (rec_id r)]) = Inr (Some b)"
    and t: "length t = length (rec_seq r)"
    by (auto simp: Let_def length_mask split: sum.splits option.splits if_splits)
  from Cons.IH[OF rec] t show ?case by (simp add: record_formatter_def)
qed

lemma stage_one_ids:
  "stage_one_trimming (Some a) w t p = Inr (Some b) \<Longrightarrow> map rec_id b = map rec_id a"
  by (auto simp: stage_one_trimming_def split: sum.splits dest: clip_rows_ids)

lemma stage_one_lengths:
  "stage_one_trimming (Some a) w t p = Inr (Some b) \<Longrightarrow>
   \<forall>r\<in>set a. length (rec_seq r) = n \<Longrightarrow>
   \<exists>m\<le>n. \<forall>r\<in>set b. length (rec_seq r) = m"
  by (auto simp: stage_one_trimming_def split: sum.splits dest: clip_rows_lengths)

lemma stage_two_ids:
  "stage_two_trimming (Some a) w = Inr (Some b) \<Longrightarrow> map rec_id b = map rec_id a"
  by (auto simp: stage_two_trimming_def dest: stage_two_rows_shape)

lemma stage_two_lengths:
  assumes "stage_two_trimming (Some a) w = Inr (Some b)"
    and "\<forall>r\<in>set a. length (rec_seq r) = n"
  shows "\<forall>r\<in>set b. length (rec_seq r) = n"
proof -
  from assms(1) have "map (\<lambda>r. length (rec_seq r)) b = map (\<lambda>r. length (rec_seq r)) a"
    by (auto simp: stage_two_trimming_def dest: stage_two_rows_shape)
  then have "set (map (\<lambda>r. length (rec_seq r)) b) = set (map (\<lambda>r. length (rec_seq r)) a)"
    by simp
  with assms(2) show ?thesis by (auto simp: image_iff)
qed

lemma stage_one_None: "stage_one_trimming None w t p = Inl TypeError"
  by (simp add: stage_one_trimming_def)

lemma stage_two_None: "stage_two_trimming None w = Inl AttributeError"
  by (simp add: stage_two_trimming_def)

lemma report_dropped_trimmed: "report_dropped a t = Inr res \<Longrightarrow> trimmed res = t"
  by (auto simp: report_dropped_def split: if_splits list.splits)

text \<open>A surviving result of the three passes went through each of them.\<close>

lemma trim_alignment_running:
  assumes "trim_alignment a m w t p = Inr res" and "trimmed res = Some b" and "m \<noteq> ''notrim''"
  obtains s1 s2 where "stage_one_trimming (Some a) w t p = Inr (Some s1)"
    and "stage_two_trimming (Some s1) 5 = Inr (Some s2)"
    and "stage_one_trimming (Some s2) w t p = Inr (Some b)"
proof -
  from assms obtain o1 o2 o3 where 1: "stage_one_trimming (Some a) w t p = Inr o1"
    and 2: "stage_two_trimming o1 5 = Inr o2"
    and 3: "stage_one_trimming o2 w t p = Inr o3"
    and 4: "report_dropped a o3 = Inr res"
    by (auto simp: trim_alignment_def split: sum.splits)
  from 4 assms(2) have o3: "o3 = Some b" by (auto dest: report_dropped_trimmed)
  from 3 obtain s2 where o2: "o2 = Some s2" by (cases o2) (auto simp: stage_one_None)
  from 2 obtain s1 where o1: "o1 = Some s1" by (cases o1) (auto simp: stage_two_None)
  from 1 2 3 o1 o2 o3 that show ?thesis by blast
qed

lemma rectangular_rows:
  "rectangular a \<Longrightarrow> \<forall>r\<in>set a. length (rec_seq r) = get_alignment_length a"
  by (simp add: rectangular_def list_all_iff)

lemma ex_conserved_run:
  "trim_alignment ex_conserved ''running'' 3 (3 / 5) (65 / 100) =
     Inr \<lparr>trimmed = Some ex_conserved_out, printed = []\<rparr>"
  by code_simp

subsection \<open>Width and rows of a surviving alignment\<close>

text \<open>
  C9. Whenever \<open>trim_alignment\<close> returns without an exception and leaves an alignment
  in \<open>self.trimmed\<close> (in either mode), all rows of that alignment have one and the same
  length, and this length is at most the width of the input.
\<close>

theorem trim_alignment_width:
  assumes "valid_alignment a" and "trim_alignment a m w t p = Inr res"
    and "trimmed res = Some b"
  shows "\<exists>n\<le>get_alignment_length a. \<forall>r\<in>set b. length (rec_seq r) = n"
proof (cases "m = ''notrim''")
  case True
  with assms have "b = a" by (auto simp: trim_alignment_def dest: report_dropped_trimmed)
  with assms(1) show ?thesis by (auto simp: valid_alignment_def dest: rectangular_rows)
next
  case False
  from trim_alignment_running[OF assms(2,3) False] obtain s1 s2
    where 1: "stage_one_trimming (Some a) w t p = Inr (Some s1)"
    and 2: "stage_two_trimming (Some s1) 5 = Inr (Some s2)"
    and 3: "stage_one_trimming (Some s2) w t p = Inr (Some b)" by blast
  from assms(1) have "\<forall>r\<in>set a. length (rec_seq r) = get_alignment_length a"
    by (auto simp: valid_alignment_def dest: rectangular_rows)
  from stage_one_lengths[OF 1 this] obtain n1 where n1: "n1 \<le> get_alignment_length a"
    "\<forall>r\<in>set s1. length (rec_seq r) = n1" by blast
  from stage_two_lengths[OF 2 n1(2)] have "\<forall>r\<in>set s2. length (rec_seq r) = n1" .
  from stage_one_lengths[OF 3 this] obtain n3
    where "n3 \<le> n1" "\<forall>r\<in>set b. length (rec_seq r) = n3" by blast
  with n1(1) show ?thesis by (meson le_trans)
qed

theorem trim_alignment_width_witness:
  "valid_alignment ex_conserved \<and>
   trim_alignment ex_conserved ''running'' 3 (3 / 5) (65 / 100) =
     Inr \<lparr>trimmed = Some ex_conserved_out, printed = []\<rparr> \<and>
   (\<exists>n\<le>get_alignment_length ex_conserved. \<forall>r\<in>set ex_conserved_out. length (rec_seq r) = n)"
proof -
  have v: "valid_alignment ex_conserved" by code_simp
  have t: "trimmed \<lparr>trimmed = Some ex_conserved_out, printed = []\<rparr> = Some ex_conserved_out"
    by simp
  from trim_alignment_width[OF v ex_conserved_run t] v ex_conserved_run show ?thesis by blast
qed

text \<open>
  C10. Whenever \<open>trim_alignment\<close> returns without an exception and leaves an alignment
  in \<open>self.trimmed\<close>, that alignment has as many rows as the input, and row \<open>i\<close> of the
  output carries the id of row \<open>i\<close> of the input: no row is renamed, moved, added or
  removed.
\<close>

theorem trim_alignment_keeps_rows:
  assumes "trim_alignment a m w t p = Inr res" and "trimmed res = Some b"
  shows "length b = length a \<and> map rec_id b = map rec_id a"
proof (cases "m = ''notrim''")
  case True
  with assms have "b = a" by (auto simp: trim_alignment_def dest: report_dropped_trimmed)
  then show ?thesis by simp
next
  case False
  from trim_alignment_running[OF assms False] obtain s1 s2
    where "stage_one_trimming (Some a) w t p = Inr (Some s1)"
    and "stage_two_trimming (Some s1) 5 = Inr (Some s2)"
    and "stage_one_trimming (Some s2) w t p = Inr (Some b)" by blast
  then have "map rec_id b = map rec_id a"
    by (auto dest!: stage_one_ids stage_two_ids)
  then show ?thesis using map_eq_imp_length_eq by blast
qed

theorem trim_alignment_keeps_rows_witness:
  "trim_alignment ex_conserved ''running'' 3 (3 / 5) (65 / 100) =
     Inr \<lparr>trimmed = Some ex_conserved_out, printed = []\<rparr> \<and>
   length ex_conserved_out = length ex_conserved \<and>
   map rec_id ex_conserved_out = map rec_id ex_conserved"
proof -
  have t: "trimmed \<lparr>trimmed = Some ex_conserved_out, printed = []\<rparr> = Some ex_conserved_out"
    by simp
  from trim_alignment_keeps_rows[OF ex_conserved_run t] ex_conserved_run show ?thesis by blast
qed

subsection \<open>Row masking in stage 2\<close>

text \<open>Every row stage 2 emits carries the id of its input row and passed the row test;
  when the two scans of the row both find a run, the row is masked with the bounds the
  scans found.\<close>

lemma stage_two_rows_out:
  "stage_two_rows cons w bs be rows acc = Inr (Some b) \<Longrightarrow>
   \<exists>outs. b = acc @ outs \<and>
     list_all2 (\<lambda>r out. rec_id out = rec_id r \<and> keeps_row (rec_seq out) \<and>
        (\<forall>gm s e. row_gm (row_compare cons (rec_seq r)) w = Inr gm \<longrightarrow>
           find_run gm = Some s \<longrightarrow> find_run (rev gm) = Some e \<longrightarrow>
           rec_seq out = mask_from (fst (get_ends (rec_seq r)) + (length gm - e))
                           (mask_before (fst (get_ends (rec_seq r)) + s) (rec_seq r)))) rows outs"
proof (induction rows arbitrary: bs be acc)
  case Nil
  then show ?case by simp
next
  case (Cons r rows)
  let ?P = "\<lambda>r out. rec_id out = rec_id r \<and> keeps_row (rec_seq out) \<and>
        (\<forall>gm s e. row_gm (row_compare cons (rec_seq r)) w = Inr gm \<longrightarrow>
           find_run gm = Some s \<longrightarrow> find_run (rev gm) = Some e \<longrightarrow>
           rec_seq out = mask_from (fst (get_ends (rec_seq r)) + (length gm - e))
                           (mask_before (fst (get_ends (rec_seq r)) + s) (rec_seq r)))"
  from Cons.prems obtain bs' be' out where
    rec: "stage_two_rows cons w bs' be' rows (acc @ [out]) = Inr (Some b)"
    and out: "?P r out"
    by (auto simp: Let_def record_formatter_def split: sum.splits option.splits if_splits)
  from Cons.IH[OF rec] obtain outs where "b = (acc @ [out]) @ outs" "list_all2 ?P rows outs"
    by blast
  with out have "b = acc @ (out # outs)" "list_all2 ?P (r # rows) (out # outs)" by simp_all
  then show ?case by blast
qed

lemma nth_mask:
  assumes "j < length s"
  shows "mask_from e (mask_before b s) ! j = (if j < b \<or> e \<le> j then CHR ''-'' else s ! j)"
proof -
  have len: "length (mask_before b s) = length s" by (simp add: mask_before_def)
  have before: "mask_before b s ! j = (if j < b then CHR ''-'' else s ! j)"
    using assms by (auto simp: mask_before_def nth_append)
  show ?thesis
  proof (cases "j < e")
    case True
    with assms len before show ?thesis by (simp add: mask_from_def nth_append)
  next
    case False
    with assms len show ?thesis by (simp add: mask_from_def nth_append)
  qed
qed

lemma ex_no_run_stage_two: "stage_two_trimming (Some ex_no_run) 5 = Inr (Some ex_no_run_out)"
  by code_simp

text \<open>
  C8. Let stage 2 return an alignment \<open>b\<close> for the alignment \<open>a\<close>, and let the two scans
  of row \<open>i\<close> find a run: the forward scan at \<open>bad_start\<close>, the scan of the reversed
  sequence at \<open>k\<close>, so that \<open>bad_end = length gm - k\<close>. Then row \<open>i\<close> of \<open>b\<close> has the
  length of row \<open>i\<close> of \<open>a\<close>; it holds the gap marker at every column before
  \<open>rowStart + bad_start\<close> and at every column from \<open>rowStart + bad_end\<close> on, and the
  character of the input row at every column in between.
\<close>

theorem stage_two_masks_row:
  assumes "stage_two_trimming (Some a) w = Inr (Some b)" and "i < length a"
    and "row_gm (row_compare (alignment_consensus a) (rec_seq (a ! i))) w = Inr gm"
    and "find_run gm = Some bad_start" and "find_run (rev gm) = Some k"
  shows "length (rec_seq (b ! i)) = length (rec_seq (a ! i)) \<and>
         (\<forall>j<length (rec_seq (a ! i)).
            rec_seq (b ! i) ! j =
              (if j < fst (get_ends (rec_seq (a ! i))) + bad_start
                  \<or> fst (get_ends (rec_seq (a ! i))) + (length gm - k) \<le> j
               then CHR ''-'' else rec_seq (a ! i) ! j))"
proof -
  from assms(1) have "stage_two_rows (alignment_consensus a) w None None a [] = Inr (Some b)"
    by (simp add: stage_two_trimming_def)
  from stage_two_rows_out[OF this] assms(2)
  have "\<forall>gm s e. row_gm (row_compare (alignment_consensus a) (rec_seq (a ! i))) w = Inr gm \<longrightarrow>
           find_run gm = Some s \<longrightarrow> find_run (rev gm) = Some e \<longrightarrow>
           rec_seq (b ! i) = mask_from (fst (get_ends (rec_seq (a ! i))) + (length gm - e))
                           (mask_before (fst (get_ends (rec_seq (a ! i))) + s) (rec_seq (a ! i)))"
    by (auto simp: list_all2_conv_all_nth)
  with assms(3,4,5)
  have eq: "rec_seq (b ! i) = mask_from (fst (get_ends (rec_seq (a ! i))) + (length gm - k))
              (mask_before (fst (get_ends (rec_seq (a ! i))) + bad_start) (rec_seq (a ! i)))"
    by blast
  show ?thesis unfolding eq by (simp add: length_mask nth_mask)
qed

theorem stage_two_masks_row_witness:
  "stage_two_trimming (Some ex_no_run) 5 = Inr (Some ex_no_run_out) \<and> 0 < length ex_no_run \<and>
   row_gm (row_compare (alignment_consensus ex_no_run) (rec_seq (ex_no_run ! 0))) 5 = Inr gm_full \<and>
   find_run gm_full = Some 2 \<and> find_run (rev gm_full) = Some 2 \<and>
   fst (get_ends (rec_seq (ex_no_run ! 0))) = 0 \<and> length gm_full = 12 \<and>
   length (rec_seq (ex_no_run_out ! 0)) = length (rec_seq (ex_no_run ! 0)) \<and>
   rec_seq (ex_no_run_out ! 0) ! 1 = CHR ''-'' \<and>
   rec_seq (ex_no_run_out ! 0) ! 2 = rec_seq (ex_no_run ! 0) ! 2 \<and>
   rec_seq (ex_no_run_out ! 0) ! 9 = rec_seq (ex_no_run ! 0) ! 9 \<and>
   rec_seq (ex_no_run_out ! 0) ! 10 = CHR ''-''"
proof -
  have 1: "0 < length ex_no_run" by code_simp
  have 2: "row_gm (row_compare (alignment_consensus ex_no_run) (rec_seq (ex_no_run ! 0))) 5
             = Inr gm_full"
    by code_simp
  have 3: "find_run gm_full = Some 2" by code_simp
  have 4: "find_run (rev gm_full) = Some 2" by code_simp
  have s: "fst (get_ends (rec_seq (ex_no_run ! 0))) = 0" by code_simp
  have l: "length (rec_seq (ex_no_run ! 0)) = 12" by code_simp
  have g: "length gm_full = 12" by code_simp
  note th = stage_two_masks_row[OF ex_no_run_stage_two 1 2 3 4, unfolded s l g]
  from th have a: "length (rec_seq (ex_no_run_out ! 0)) = 12" by simp
  from th have b: "rec_seq (ex_no_run_out ! 0) ! 1 = CHR ''-''" by simp
  from th have c: "rec_seq (ex_no_run_out ! 0) ! 2 = rec_seq (ex_no_run ! 0) ! 2" by simp
  from th have d: "rec_seq (ex_no_run_out ! 0) ! 9 = rec_seq (ex_no_run ! 0) ! 9" by simp
  from th have e: "rec_seq (ex_no_run_out ! 0) ! 10 = CHR ''-''" by simp
  from ex_no_run_stage_two 1 2 3 4 s l g a b c d e show ?thesis by simp
qed

subsection \<open>Rows of gap markers and rows of missing-data markers\<close>

text \<open>Neither stage returns an alignment with a row that holds gap markers only, and
  neither removes a row.\<close>

lemma keeps_row_not_gaps: "keeps_row t \<Longrightarrow> set t \<noteq> {CHR ''-''}"
  by (simp add: keeps_row_def)

lemma stage_one_no_gap_row:
  assumes "stage_one_trimming (Some a) w t p = Inr (Some b)"
  shows "length b = length a \<and> (\<forall>r\<in>set b. set (rec_seq r) \<noteq> {CHR ''-''})"
proof -
  from assms obtain clip where c: "clip_rows clip a [] = Some b"
    by (auto simp: stage_one_trimming_def split: sum.splits)
  show ?thesis
  proof (cases a)
    case Nil
    with c show ?thesis by simp
  next
    case (Cons r rs)
    then have "a \<noteq> []" by simp
    from clip_rows_shape[OF c this] obtain start stop
      where b: "b = map (record_slice start stop) a"
        and k: "\<forall>r\<in>set a. keeps_row (rec_seq (record_slice start stop r))"
      by auto
    from b have "length b = length a" by simp
    moreover have "\<forall>r\<in>set b. set (rec_seq r) \<noteq> {CHR ''-''}"
    proof
      fix r assume "r \<in> set b"
      with b obtain r' where "r' \<in> set a" "r = record_slice start stop r'" by auto
      with k have "keeps_row (rec_seq r)" by simp
      then show "set (rec_seq r) \<noteq> {CHR ''-''}" by (rule keeps_row_not_gaps)
    qed
    ultimately show ?thesis by simp
  qed
qed

lemma stage_two_no_gap_row:
  assumes "stage_two_trimming (Some a) w = Inr (Some b)"
  shows "length b = length a \<and> (\<forall>r\<in>set b. set (rec_seq r) \<noteq> {CHR ''-''})"
proof -
  from assms have "stage_two_rows (alignment_consensus a) w None None a [] = Inr (Some b)"
    by (simp add: stage_two_trimming_def)
  from stage_two_rows_out[OF this]
  have l: "list_all2 (\<lambda>r out. keeps_row (rec_seq out)) a b"
    by (auto elim: list_all2_mono)
  then have len: "length b = length a" by (simp add: list_all2_lengthD)
  have "\<forall>r\<in>set b. set (rec_seq r) \<noteq> {CHR ''-''}"
  proof
    fix r assume "r \<in> set b"
    then obtain i where "i < length b" "r = b ! i" by (auto simp: in_set_conv_nth)
    with l have "keeps_row (rec_seq r)" by (simp add: list_all2_conv_all_nth)
    then show "set (rec_seq r) \<noteq> {CHR ''-''}" by (rule keeps_row_not_gaps)
  qed
  with len show ?thesis by simp
qed

text \<open>
  C2 (the code departs from the claim). The part of the claim about rows of gap markers
  holds, see the two lemmas above. The part about rows of missing-data markers does not:
  the row test compares the set of the row's characters with the list \<open>['?']\<close>, which
  never succeeds, so a row holding only \<open>?\<close> is kept. Stage 1 (window 3, threshold 3/5,
  proportion 0.65) returns \<open>ex_missing_row\<close> clipped to its first five columns, with the
  row \<open>?????\<close> in it.
\<close>

theorem stage_one_keeps_missing_row:
  "stage_one_trimming (Some ex_missing_row) 3 (3 / 5) (65 / 100) = Inr (Some ex_missing_row_out)
   \<and> rec_seq (ex_missing_row_out ! 1) = ''?????'' \<and> keeps_row ''?????''"
proof -
  have "stage_one_trimming (Some ex_missing_row) 3 (3 / 5) (65 / 100)
          = Inr (Some ex_missing_row_out)"
    by code_simp
  moreover have "rec_seq (ex_missing_row_out ! 1) = ''?????''" by code_simp
  moreover have "keeps_row ''?????''" by code_simp
  ultimately show ?thesis by blast
qed

subsection \<open>Failures of a pass\<close>

text \<open>
  C1 (the code departs from the claim). \<open>trim_alignment\<close> hands the result of each pass
  to the next one without looking at it. For \<open>ex_all_gaps\<close> with the default parameters
  the first pass finds no column and returns \<open>None\<close>; stage 2 is then run on \<open>None\<close> and
  raises \<open>AttributeError\<close>. For \<open>ex_gap_core\<close> (window 3, threshold 3/5, proportion 1/4)
  the first pass succeeds, stage 2 drops the alignment because its first row is masked
  completely, and the third pass, run on \<open>None\<close>, raises \<open>TypeError\<close>.
\<close>

theorem trim_alignment_raises:
  "stage_one_trimming (Some ex_all_gaps) 20 (3 / 4) (65 / 100) = Inr None \<and>
   trim_alignment ex_all_gaps ''running'' 20 (3 / 4) (65 / 100) = Inl AttributeError \<and>
   stage_one_trimming (Some ex_gap_core) 3 (3 / 5) (1 / 4) = Inr (Some ex_gap_core_clipped) \<and>
   stage_two_trimming (Some ex_gap_core_clipped) 5 = Inr None \<and>
   trim_alignment ex_gap_core ''running'' 3 (3 / 5) (1 / 4) = Inl TypeError"
proof -
  have "stage_one_trimming (Some ex_all_gaps) 20 (3 / 4) (65 / 100) = Inr None"
    by code_simp
  moreover have "trim_alignment ex_all_gaps ''running'' 20 (3 / 4) (65 / 100)
                   = Inl AttributeError"
    by code_simp
  moreover have "stage_one_trimming (Some ex_gap_core) 3 (3 / 5) (1 / 4)
                   = Inr (Some ex_gap_core_clipped)"
    by code_simp
  moreover have "stage_two_trimming (Some ex_gap_core_clipped) 5 = Inr None"
    by code_simp
  moreover have "trim_alignment ex_gap_core ''running'' 3 (3 / 5) (1 / 4) = Inl TypeError"
    by code_simp
  ultimately show ?thesis by blast
qed

text \<open>
  C6 (the code departs from the claim). The second row of \<open>ex_no_run\<close> agrees with the
  consensus \<open>ACGTACGTACGT\<close> in every fourth column only, so neither scan of it finds a
  run. Stage 2 does not drop the alignment: it masks that row with the bounds 2 and 10
  left over from the first row. When the same row comes first, no bounds have been assigned
  yet and stage 2 raises \<open>UnboundLocalError\<close>.
\<close>

theorem stage_two_stale_bounds:
  "alignment_consensus ex_no_run = ''ACGTACGTACGT'' \<and>
   row_gm (row_compare (alignment_consensus ex_no_run) (rec_seq (ex_no_run ! 1))) 5 = Inr gm_none \<and>
   find_run gm_none = None \<and> find_run (rev gm_none) = None \<and>
   stage_two_trimming (Some ex_no_run) 5 = Inr (Some ex_no_run_out) \<and>
   rec_seq (ex_no_run_out ! 1) = ''--TTTTTTTT--'' \<and>
   stage_two_trimming (Some ex_no_run_first) 5 = Inl UnboundLocalError"
proof -
  have "alignment_consensus ex_no_run = ''ACGTACGTACGT''" by code_simp
  moreover have "row_gm (row_compare (alignment_consensus ex_no_run) (rec_seq (ex_no_run ! 1))) 5
                   = Inr gm_none"
    by code_simp
  moreover have "find_run gm_none = None" by code_simp
  moreover have "find_run (rev gm_none) = None" by code_simp
  moreover have "stage_two_trimming (Some ex_no_run) 5 = Inr (Some ex_no_run_out)" by code_simp
  moreover have "rec_seq (ex_no_run_out ! 1) = ''--TTTTTTTT--''" by code_simp
  moreover have "stage_two_trimming (Some ex_no_run_first) 5 = Inl UnboundLocalError"
    by code_simp
  ultimately show ?thesis by blast
qed

subsection \<open>The column loop of the scan\<close>

lemma counter_get_counter: "counter_get (counter s) x = count_list s x"
proof (cases "x \<in> set s")
  case True
  then have "map_of (counter s) x = Some (count_list s x)"
    by (simp add: counter_def map_of_map_restrict)
  then show ?thesis by (simp add: counter_get_def)
next
  case False
  then have "map_of (counter s) x = None"
    by (simp add: counter_def map_of_map_restrict)
  with False show ?thesis by (simp add: counter_get_def count_list_0_iff)
qed

lemma counter_del_counter:
  "counter_del (counter s) x = map (\<lambda>c. (c, count_list s c)) (filter (\<lambda>c. c \<noteq> x) (remdups s))"
  by (simp add: counter_del_def counter_def filter_map comp_def)

lemma fold_best:
  "fold (\<lambda>x best. if snd best < snd x then x else best) es e \<in> set (e # es) \<and>
   (\<forall>x\<in>set (e # es). (snd x :: nat) \<le> snd (fold (\<lambda>x best. if snd best < snd x then x else best) es e))"
proof (induction es arbitrary: e)
  case Nil
  then show ?case by simp
next
  case (Cons y es)
  let ?e' = "if snd e < snd y then y else e"
  from Cons.IH[of ?e'] show ?case by (auto split: if_splits)
qed

lemma most_common1_cases:
  "(cnt = [] \<and> most_common1 cnt = []) \<or>
   (\<exists>e. most_common1 cnt = [e] \<and> e \<in> set cnt \<and> (\<forall>x\<in>set cnt. (snd x :: nat) \<le> snd e))"
proof (cases cnt)
  case Nil
  then show ?thesis by (simp add: most_common1_def)
next
  case (Cons e es)
  with fold_best[of es e] show ?thesis by (simp add: most_common1_def)
qed

lemma column_good_cases:
  "column_good col m =
     (if m < int (count_list col CHR ''-'') then Inr False
      else if \<forall>x\<in>set col. x = CHR ''-'' then Inl IndexError
      else Inr (spec_column_good col m))"
proof (cases "m < int (count_list col CHR ''-'')")
  case True
  then show ?thesis by (simp add: column_good_def counter_get_counter)
next
  case False
  let ?l = "map (\<lambda>c. (c, count_list col c)) (filter (\<lambda>c. c \<noteq> CHR ''-'') (remdups col))"
  have cg: "column_good col m = (case most_common1 ?l of [] \<Rightarrow> Inl IndexError
               | e # _ \<Rightarrow> Inr (m \<le> int (snd e)))"
    using False by (simp add: column_good_def counter_get_counter counter_del_counter)
  show ?thesis
  proof (cases "\<forall>x\<in>set col. x = CHR ''-''")
    case True
    then have "?l = []" by (auto simp: filter_empty_conv)
    with cg False True show ?thesis by (simp add: most_common1_def)
  next
    case nongap: False
    then have ne: "?l \<noteq> []" by (auto simp: filter_empty_conv)
    with most_common1_cases[of ?l] obtain e where e: "most_common1 ?l = [e]" "e \<in> set ?l"
      "\<forall>x\<in>set ?l. snd x \<le> snd e" by blast
    from e(2) obtain c where c: "c \<in> set col" "c \<noteq> CHR ''-''" "e = (c, count_list col c)" by auto
    have mx: "\<forall>d\<in>set col. d \<noteq> CHR ''-'' \<longrightarrow> count_list col d \<le> count_list col c"
    proof (intro ballI impI)
      fix d assume "d \<in> set col" "d \<noteq> CHR ''-''"
      then have "(d, count_list col d) \<in> set ?l" by auto
      with e(3) c(3) show "count_list col d \<le> count_list col c" by fastforce
    qed
    have "spec_column_good col m \<longleftrightarrow> m \<le> int (count_list col c)"
    proof
      assume "spec_column_good col m"
      then obtain x where "x \<in> set col" "x \<noteq> CHR ''-''" "m \<le> int (count_list col x)"
        by (auto simp: spec_column_good_def)
      with mx show "m \<le> int (count_list col c)" by fastforce
    next
      assume "m \<le> int (count_list col c)"
      with c mx False show "spec_column_good col m"
        unfolding spec_column_good_def by blast
    qed
    with cg e(1) c(3) False nongap show ?thesis by simp
  qed
qed

lemma score_columns_nth:
  "score_columns cols m = Inr gs \<Longrightarrow>
     length gs = length cols \<and> (\<forall>i<length cols. column_good (cols ! i) m = Inr (gs ! i))"
proof (induction cols arbitrary: gs)
  case Nil
  then show ?case by simp
next
  case (Cons col cols)
  from Cons.prems obtain g gs' where g: "column_good col m = Inr g"
    and r: "score_columns cols m = Inr gs'" and gs: "gs = g # gs'"
    by (auto split: sum.splits)
  from Cons.IH[OF r] g gs show ?case by (auto simp: nth_Cons split: nat.splits)
qed

lemma good_alignment_nth:
  assumes "good_alignment a proportion = Inr good" and "c < get_alignment_length a"
  shows "length good = get_alignment_length a \<and>
         column_good (column a c) (py2_round (proportion * of_nat (length a))) = Inr (good ! c)"
proof -
  from assms(1) have "score_columns (map (column a) [0..<get_alignment_length a])
       (py2_round (proportion * of_nat (length a))) = Inr good"
    by (simp add: good_alignment_def)
  from score_columns_nth[OF this] assms(2) show ?thesis by simp
qed


text \<open>What the loop body does with a column, case by case: BAD for more gap markers
  than the majority count; otherwise, for a column with a character other than the gap
  marker, the score of the specification; otherwise, for a column of gap markers only, no
  score but the \<open>IndexError\<close> of \<open>most_common(1)[0]\<close>.\<close>

lemma column_good_scored:
  "m < int (count_list col CHR ''-'') \<Longrightarrow> column_good col m = Inr False"
  "\<not> m < int (count_list col CHR ''-'') \<Longrightarrow> \<exists>x\<in>set col. x \<noteq> CHR ''-'' \<Longrightarrow>
     column_good col m = Inr (spec_column_good col m)"
  "\<not> m < int (count_list col CHR ''-'') \<Longrightarrow> \<forall>x\<in>set col. x = CHR ''-'' \<Longrightarrow>
     column_good col m = Inl IndexError"
proof -
  show "m < int (count_list col CHR ''-'') \<Longrightarrow> column_good col m = Inr False"
    by (simp add: column_good_cases)
next
  assume "\<not> m < int (count_list col CHR ''-'')" and "\<exists>x\<in>set col. x \<noteq> CHR ''-''"
  then have "\<not> m < int (count_list col CHR ''-'')" and "\<not> (\<forall>x\<in>set col. x = CHR ''-'')"
    by blast+
  then show "column_good col m = Inr (spec_column_good col m)"
    by (simp only: column_good_cases if_not_P if_False)
next
  assume "\<not> m < int (count_list col CHR ''-'')" and "\<forall>x\<in>set col. x = CHR ''-''"
  then show "column_good col m = Inl IndexError"
    by (simp only: column_good_cases if_not_P if_P if_False if_True)
qed

text \<open>
  C7 (the code departs from the claim). The claim gives every column a score: BAD for
  more gap markers than the majority count, and for every other column GOOD or BAD by the
  count of its most frequent non-gap character. The loop gives no score to a column that
  holds gap markers only when their number does not exceed the majority count: the
  counter is empty once the gap marker is deleted, and \<open>most_common(1)[0]\<close> raises
  \<open>IndexError\<close>. For the single row \<open>A-C\<close> and proportion 0.65 the majority count is
  1, the second column holds one gap marker, and the loop, and with it the scan, raises
  instead of scoring the column BAD. The same happens for the first column of
  \<open>ex_gap_column\<close> with proportion 1.
\<close>

theorem column_loop_raises:
  "valid_alignment ex_one_row \<and>
   py2_round (65 / 100 * of_nat (length ex_one_row)) = 1 \<and>
   column ex_one_row 1 = ''-'' \<and>
   count_list (column ex_one_row 1) CHR ''-'' = 1 \<and>
   column_good (column ex_one_row 1) 1 = Inl IndexError \<and>
   good_alignment ex_one_row (65 / 100) = Inl IndexError \<and>
   running_average ex_one_row 20 (3 / 4) (65 / 100) = Inl IndexError \<and>
   py2_round (1 * of_nat (length ex_gap_column)) = 2 \<and>
   column ex_gap_column 0 = ''--'' \<and>
   column_good (column ex_gap_column 0) 2 = Inl IndexError \<and>
   good_alignment ex_gap_column 1 = Inl IndexError"
proof -
  have "valid_alignment ex_one_row" by code_simp
  moreover have "py2_round (65 / 100 * of_nat (length ex_one_row)) = 1" by code_simp
  moreover have "column ex_one_row 1 = ''-''" by code_simp
  moreover have "count_list (column ex_one_row 1) CHR ''-'' = 1" by code_simp
  moreover have "column_good (column ex_one_row 1) 1 = Inl IndexError" by code_simp
  moreover have "good_alignment ex_one_row (65 / 100) = Inl IndexError" by code_simp
  moreover have "running_average ex_one_row 20 (3 / 4) (65 / 100) = Inl IndexError" by code_simp
  moreover have "py2_round (1 * of_nat (length ex_gap_column)) = 2" by code_simp
  moreover have "column ex_gap_column 0 = ''--''" by code_simp
  moreover have "column_good (column ex_gap_column 0) 2 = Inl IndexError" by code_simp
  moreover have "good_alignment ex_gap_column 1 = Inl IndexError" by code_simp
  ultimately show ?thesis by (intro conjI)
qed

subsection \<open>The stage-1 scan and the scan of the specification\<close>

text \<open>
  C5 (the code departs from the claim). For \<open>ex_short\<close>, 18 columns wide, and the
  default window 20, \<open>numpy.convolve\<close> returns 20 running averages, shifted against the
  columns: the scan returns 6 and 14, while the centered moving averages of the columns
  reach the threshold from column 5 to column 13. For \<open>ex_gap_column\<close> with proportion 1
  the scan returns nothing at all: the first column holds gap markers only, as many as the
  majority count, and the scan raises \<open>IndexError\<close>, while columns 1 to 4 qualify.
\<close>

theorem running_average_departs:
  "running_average ex_short 20 (3 / 4) (65 / 100) = Inr (Some (6, 14)) \<and>
   spec_scan ex_short 20 (3 / 4) (65 / 100) = Some (5, 13) \<and>
   running_average ex_gap_column 3 (3 / 5) 1 = Inl IndexError \<and>
   spec_scan ex_gap_column 3 (3 / 5) 1 = Some (1, 4)"
proof -
  have "running_average ex_short 20 (3 / 4) (65 / 100) = Inr (Some (6, 14))" by code_simp
  moreover have "spec_scan ex_short 20 (3 / 4) (65 / 100) = Some (5, 13)" by code_simp
  moreover have "running_average ex_gap_column 3 (3 / 5) 1 = Inl IndexError" by code_simp
  moreover have "spec_scan ex_gap_column 3 (3 / 5) 1 = Some (1, 4)" by code_simp
  ultimately show ?thesis by blast
qed

subsection \<open>The bounds of a row in stage 2\<close>

lemma sum_list_if_bound:
  fixes f :: "nat \<Rightarrow> rat"
  assumes "\<forall>j<n. P j \<longrightarrow> f j \<le> c"
  shows "sum_list (map (\<lambda>j. if P j then f j else 0) [0..<n]) \<le> c * of_nat (card {j. j < n \<and> P j})"
proof -
  have e1: "sum_list (map (\<lambda>j. if P j then f j else 0) [0..<n])
              = (\<Sum>j\<in>{0..<n}. if P j then f j else 0)"
    by (simp add: interv_sum_list_conv_sum_set_nat)
  have e2: "(\<Sum>j\<in>{0..<n}. if P j then f j else 0) = sum f {j \<in> {0..<n}. P j}"
    by (rule sum.inter_filter[symmetric]) simp
  have e3: "{j \<in> {0..<n}. P j} = {j. j < n \<and> P j}" by auto
  have "sum f {j. j < n \<and> P j} \<le> of_nat (card {j. j < n \<and> P j}) * c"
    using assms(1) by (intro sum_bounded_above) auto
  with e1 e2 e3 show ?thesis by (simp add: mult.commute)
qed

lemma card_interval_le:
  "card {j::nat. j < n \<and> lo \<le> j \<and> j \<le> hi} \<le> hi + 1 - lo"
proof -
  have "{j::nat. j < n \<and> lo \<le> j \<and> j \<le> hi} \<subseteq> {lo..hi}" by auto
  then have "card {j::nat. j < n \<and> lo \<le> j \<and> j \<le> hi} \<le> card {lo..hi}"
    by (intro card_mono) auto
  then show ?thesis by simp
qed


lemma card_window_le:
  "card {j::nat. j < n \<and> j \<le> p \<and> p - j < m} \<le> m"
proof (cases "m = 0")
  case True
  then show ?thesis by simp
next
  case False
  have "{j::nat. j < n \<and> j \<le> p \<and> p - j < m} \<subseteq> {p + 1 - m..p}" by auto
  then have "card {j::nat. j < n \<and> j \<le> p \<and> p - j < m} \<le> card {p + 1 - m..p}"
    by (intro card_mono) auto
  also have "\<dots> \<le> m" by simp
  finally show ?thesis .
qed

lemma conv_full_le:
  assumes "\<forall>j<length a. j \<le> p \<and> p - j < length v \<longrightarrow> a ! j * v ! (p - j) \<le> 1 / 5"
    and "card {j. j < length a \<and> j \<le> p \<and> p - j < length v} \<le> 4"
  shows "conv_full a v p \<le> 4 / 5"
proof -
  have "conv_full a v p \<le> 1 / 5 * of_nat (card {j. j < length a \<and> j \<le> p \<and> p - j < length v})"
    unfolding conv_full_def
    using assms(1) by (intro sum_list_if_bound) blast
  also have "\<dots> \<le> 1 / 5 * of_nat 4"
  proof (rule mult_left_mono)
    from assms(2) show "(of_nat (card {j. j < length a \<and> j \<le> p \<and> p - j < length v}) :: rat) \<le> of_nat 4"
      by (simp only: of_nat_le_iff)
    show "(0::rat) \<le> 1 / 5" by simp
  qed
  finally show ?thesis by simp
qed

lemma of_bool_weight_le:
  assumes "j < length compare" and "i < 5"
  shows "(map of_bool compare ! j :: rat) * replicate 5 (1 / 5) ! i \<le> 1 / 5"
    and "replicate 5 (1 / 5) ! i * (map of_bool compare ! j :: rat) \<le> 1 / 5"
  using assms by (cases "compare ! j"; simp)+

text \<open>The first and the last entry of the smoothed match sequence are never a match:
  their windows reach beyond the sequence.\<close>

lemma row_gm_ends:
  assumes "row_gm compare 5 = Inr gm"
  shows "gm \<noteq> [] \<and> \<not> hd gm \<and> \<not> last gm"
proof -
  let ?c = "map of_bool compare :: rat list"
  let ?w = "replicate 5 (1 / 5) :: rat list"
  from assms have ne: "compare \<noteq> []"
    by (auto simp: row_gm_def np_weight_def np_convolve_same_def split: if_splits)
  show ?thesis
  proof (cases "length compare < 5")
    case True
    let ?f = "\<lambda>k. conv_full ?w ?c (k + (length compare - 1) div 2)"
    from assms True ne have gm: "gm = map (\<lambda>x. 99 / 100 < x) (map ?f [0..<5])"
      by (auto simp: row_gm_def np_weight_def np_convolve_same_def Let_def)
    have small: "?f k \<le> 4 / 5" for k
    proof (rule conv_full_le)
      show "\<forall>j<length ?w. j \<le> k + (length compare - 1) div 2 \<and>
              k + (length compare - 1) div 2 - j < length ?c \<longrightarrow>
              ?w ! j * ?c ! (k + (length compare - 1) div 2 - j) \<le> 1 / 5"
        using of_bool_weight_le(2) by simp
      have "card {j. j < length ?w \<and> j \<le> k + (length compare - 1) div 2 \<and>
               k + (length compare - 1) div 2 - j < length ?c} \<le> length ?c"
        by (rule card_window_le)
      with True show "card {j. j < length ?w \<and> j \<le> k + (length compare - 1) div 2 \<and>
               k + (length compare - 1) div 2 - j < length ?c} \<le> 4"
        by simp
    qed
    have "\<not> 99 / 100 < ?f k" for k
      using small[of k] by linarith
    then have "\<forall>b\<in>set gm. \<not> b" by (auto simp: gm)
    moreover have "gm \<noteq> []" by (simp add: gm)
    ultimately show ?thesis by (metis hd_in_set last_in_set)
  next
    case False
    let ?n = "length compare"
    let ?f = "\<lambda>k. conv_full ?c ?w (k + 2)"
    from assms False ne have gm: "gm = map (\<lambda>x. 99 / 100 < x) (map ?f [0..<?n])"
      by (auto simp: row_gm_def np_weight_def np_convolve_same_def Let_def)
    have terms: "\<forall>j<length ?c. j \<le> p \<and> p - j < length ?w \<longrightarrow> ?c ! j * ?w ! (p - j) \<le> 1 / 5" for p
      using of_bool_weight_le(1) by simp
    have first: "?f 0 \<le> 4 / 5"
    proof (rule conv_full_le[OF terms])
      have "{j. j < length ?c \<and> j \<le> 0 + 2 \<and> 0 + 2 - j < length ?w} \<subseteq> {0..2::nat}" by auto
      then have "card {j. j < length ?c \<and> j \<le> 0 + 2 \<and> 0 + 2 - j < length ?w} \<le> card {0..2::nat}"
        by (intro card_mono) auto
      then show "card {j. j < length ?c \<and> j \<le> 0 + 2 \<and> 0 + 2 - j < length ?w} \<le> 4" by simp
    qed
    have last: "?f (?n - 1) \<le> 4 / 5"
    proof (rule conv_full_le[OF terms])
      have "{j. j < length ?c \<and> j \<le> ?n - 1 + 2 \<and> ?n - 1 + 2 - j < length ?w} \<subseteq> {?n - 3..?n - 1}"
        by auto
      then have "card {j. j < length ?c \<and> j \<le> ?n - 1 + 2 \<and> ?n - 1 + 2 - j < length ?w}
                  \<le> card {?n - 3..?n - 1}"
        by (intro card_mono) auto
      then show "card {j. j < length ?c \<and> j \<le> ?n - 1 + 2 \<and> ?n - 1 + 2 - j < length ?w} \<le> 4"
        by simp
    qed
    from ne have n0: "0 < ?n" by simp
    have g0: "gm \<noteq> []" using ne by (simp add: gm)
    have "hd gm = (99 / 100 < ?f 0)"
      using n0 by (simp add: gm hd_map upt_conv_Cons)
    with first have h: "\<not> hd gm" by linarith
    have "last gm = (99 / 100 < ?f (?n - 1))"
      using n0 by (simp add: gm last_map)
    with last have l: "\<not> last gm" by linarith
    from g0 h l show ?thesis by simp
  qed
qed

lemma find_run_Some:
  assumes "find_run gm = Some i" and "gm \<noteq> []" and "\<not> last gm"
  shows "i + 5 \<le> length gm \<and> (\<forall>j<5. gm ! (i + j)) \<and> (\<forall>i'<i. \<exists>j<5. \<not> gm ! (i' + j))"
proof -
  let ?P = "\<lambda>i. list_all (\<lambda>b. b) (py_slice i (i + 5) gm)"
  from assms(1) have i: "i < length gm" "?P i" "\<forall>i'<i. \<not> ?P i'"
    by (auto simp: find_run_def find_Some_iff)
  have len: "i + 5 \<le> length gm"
  proof (rule ccontr)
    assume "\<not> i + 5 \<le> length gm"
    then have "py_slice i (i + 5) gm = drop i gm" by (simp add: py_slice_def)
    moreover from i(1) have "last (drop i gm) = last gm" by simp
    moreover from i(1) have "drop i gm \<noteq> []" by simp
    ultimately have "last gm \<in> set (py_slice i (i + 5) gm)" using last_in_set[of "drop i gm"] by simp
    with i(2) have "last gm" unfolding list_all_iff by blast
    with assms(3) show False by simp
  qed
  have nth: "py_slice i' (i' + 5) gm ! j = gm ! (i' + j)" "length (py_slice i' (i' + 5) gm) = 5"
    if "i' + 5 \<le> length gm" "j < 5" for i' j
    using that by (simp_all add: py_slice_def min_def)
  have a: "\<forall>j<5. gm ! (i + j)"
  proof (intro allI impI)
    fix j :: nat assume j: "j < 5"
    from nth[OF len j] j have "gm ! (i + j) \<in> set (py_slice i (i + 5) gm)"
      using nth_mem[of j "py_slice i (i + 5) gm"] by simp
    with i(2) show "gm ! (i + j)" unfolding list_all_iff by blast
  qed
  have b: "\<forall>i'<i. \<exists>j<5. \<not> gm ! (i' + j)"
  proof (intro allI impI)
    fix i' assume lt: "i' < i"
    with len have l': "i' + 5 \<le> length gm" by simp
    from lt i(3) have "\<not> ?P i'" by simp
    then obtain b where "b \<in> set (py_slice i' (i' + 5) gm)" "\<not> b" by (auto simp: list_all_iff)
    then obtain j where "j < length (py_slice i' (i' + 5) gm)" "py_slice i' (i' + 5) gm ! j = b"
      by (auto simp: in_set_conv_nth)
    then have j5: "j < 5" and "py_slice i' (i' + 5) gm ! j = b"
      using nth(2)[OF l', of 0] by simp_all
    with nth(1)[OF l' j5] \<open>\<not> b\<close> have "\<not> gm ! (i' + j)" by simp
    with j5 show "\<exists>j<5. \<not> gm ! (i' + j)" by blast
  qed
  from len a b show ?thesis by simp
qed


lemma get_ends_le: "fst (get_ends s) \<le> length s \<and> snd (get_ends s) \<le> length s"
  by (simp add: get_ends_def Let_def length_takeWhile_le)

lemma row_compare_nth:
  assumes "length consensus = length s"
  shows "length (row_compare consensus s) = snd (get_ends s) - fst (get_ends s) \<and>
         (\<forall>n<snd (get_ends s) - fst (get_ends s).
            row_compare consensus s ! n \<longleftrightarrow>
              s ! (fst (get_ends s) + n) = consensus ! (fst (get_ends s) + n))"
proof -
  obtain start stop where ge: "get_ends s = (start, stop)" by (cases "get_ends s")
  with get_ends_le[of s] have le: "start \<le> length s" "stop \<le> length s" by simp_all
  have rc: "row_compare consensus s =
              map (\<lambda>(x, y). x = y) (zip (drop start (take stop s)) (drop start (take stop consensus)))"
    by (simp add: row_compare_def ge py_slice_def)
  have len: "length (row_compare consensus s) = stop - start"
    using le assms by (simp add: rc min_def)
  have sl: "drop start (take stop xs) ! n = xs ! (start + n)"
    if "n < stop - start" "stop \<le> length xs" for n and xs :: string
  proof -
    from that have "start \<le> length (take stop xs)" by simp
    then have "drop start (take stop xs) ! n = take stop xs ! (start + n)" by (rule nth_drop)
    also from that have "\<dots> = xs ! (start + n)" by simp
    finally show ?thesis .
  qed
  have "row_compare consensus s ! n \<longleftrightarrow> s ! (start + n) = consensus ! (start + n)"
    if "n < stop - start" for n
    using that le assms sl[OF that, of s] sl[OF that, of consensus] by (simp add: rc min_def)
  with len ge show ?thesis by simp
qed

lemma stage_two_rows_step:
  assumes "row_gm (row_compare consensus (rec_seq r)) w = Inr gm"
    and "find_run gm = Some i" and "find_run (rev gm) = Some k"
  shows "stage_two_rows consensus w bs0 be0 (r # rest) acc =
           (if keeps_row (mask_from (fst (get_ends (rec_seq r)) + (length gm - k))
                            (mask_before (fst (get_ends (rec_seq r)) + i) (rec_seq r)))
            then stage_two_rows consensus w (Some i) (Some (length gm - k)) rest
                   (acc @ [record_formatter
                             (mask_from (fst (get_ends (rec_seq r)) + (length gm - k))
                                (mask_before (fst (get_ends (rec_seq r)) + i) (rec_seq r)))
                             (rec_id r)])
            else Inr None)"
  using assms by (simp add: Let_def)

lemma row_gm_smoothed:
  assumes "row_gm compare 5 = Inr gm"
  shows "\<exists>ra. np_convolve_same (map of_bool compare) (replicate 5 (1 / 5)) = Inr ra \<and>
              gm = map (\<lambda>x. 99 / 100 < x) ra"
  using assms by (auto simp: row_gm_def np_weight_def split: sum.splits)

text \<open>
  C4 (amended). For a row of stage 2 and a consensus of the row's length: the match
  sequence has one entry for each column of \<open>[rowStart, rowEnd)\<close>, true exactly where
  the row and the consensus hold the same character (upper and lower case differ); the
  smoothed sequence \<open>gm\<close> marks the entries whose running average over 5 positions
  exceeds 0.99. When both scans find a run, \<open>bad_start\<close> is the first index \<open>i\<close> with
  the five positions \<open>i, ..., i + 4\<close> of \<open>gm\<close> all marked, the scan of the reversed
  sequence finds the first such index \<open>k\<close> there, and the loop masks the row with
  \<open>bad_start = i\<close> and \<open>bad_end = length gm - k\<close> and carries these values on.
\<close>

theorem stage_two_row_bounds:
  assumes "length consensus = length (rec_seq r)"
    and "row_gm (row_compare consensus (rec_seq r)) 5 = Inr gm"
    and "find_run gm = Some i" and "find_run (rev gm) = Some k"
  shows "length (row_compare consensus (rec_seq r))
           = snd (get_ends (rec_seq r)) - fst (get_ends (rec_seq r)) \<and>
         (\<forall>n<snd (get_ends (rec_seq r)) - fst (get_ends (rec_seq r)).
            row_compare consensus (rec_seq r) ! n \<longleftrightarrow>
              rec_seq r ! (fst (get_ends (rec_seq r)) + n)
                = consensus ! (fst (get_ends (rec_seq r)) + n)) \<and>
         (\<exists>ra. np_convolve_same (map of_bool (row_compare consensus (rec_seq r)))
                  (replicate 5 (1 / 5)) = Inr ra \<and>
               gm = map (\<lambda>x. 99 / 100 < x) ra) \<and>
         i + 5 \<le> length gm \<and> (\<forall>j<5. gm ! (i + j)) \<and> (\<forall>i'<i. \<exists>j<5. \<not> gm ! (i' + j)) \<and>
         k + 5 \<le> length gm \<and> (\<forall>j<5. rev gm ! (k + j)) \<and>
         (\<forall>k'<k. \<exists>j<5. \<not> rev gm ! (k' + j)) \<and>
         stage_two_rows consensus 5 bs0 be0 (r # rest) acc =
           (if keeps_row (mask_from (fst (get_ends (rec_seq r)) + (length gm - k))
                            (mask_before (fst (get_ends (rec_seq r)) + i) (rec_seq r)))
            then stage_two_rows consensus 5 (Some i) (Some (length gm - k)) rest
                   (acc @ [record_formatter
                             (mask_from (fst (get_ends (rec_seq r)) + (length gm - k))
                                (mask_before (fst (get_ends (rec_seq r)) + i) (rec_seq r)))
                             (rec_id r)])
            else Inr None)"
proof -
  note ends = row_gm_ends[OF assms(2)]
  from ends have fwd: "i + 5 \<le> length gm \<and> (\<forall>j<5. gm ! (i + j)) \<and> (\<forall>i'<i. \<exists>j<5. \<not> gm ! (i' + j))"
    by (intro find_run_Some[OF assms(3)]) simp_all
  from ends have "rev gm \<noteq> []" "\<not> last (rev gm)" by (simp_all add: last_rev)
  from find_run_Some[OF assms(4) this]
  have bwd: "k + 5 \<le> length gm \<and> (\<forall>j<5. rev gm ! (k + j)) \<and> (\<forall>k'<k. \<exists>j<5. \<not> rev gm ! (k' + j))"
    by simp
  from row_compare_nth[OF assms(1)] row_gm_smoothed[OF assms(2)] fwd bwd
    stage_two_rows_step[OF assms(2,3,4)]
  show ?thesis by blast
qed

theorem stage_two_row_bounds_witness:
  "length ''ACGTACGTACGT'' = length (rec_seq (ex_no_run ! 0)) \<and>
   row_gm (row_compare ''ACGTACGTACGT'' (rec_seq (ex_no_run ! 0))) 5 = Inr gm_full \<and>
   find_run gm_full = Some 2 \<and> find_run (rev gm_full) = Some 2 \<and>
   length (row_compare ''ACGTACGTACGT'' (rec_seq (ex_no_run ! 0)))
     = snd (get_ends (rec_seq (ex_no_run ! 0))) - fst (get_ends (rec_seq (ex_no_run ! 0))) \<and>
   2 + 5 \<le> length gm_full"
proof -
  have 1: "length ''ACGTACGTACGT'' = length (rec_seq (ex_no_run ! 0))" by code_simp
  have 2: "row_gm (row_compare ''ACGTACGTACGT'' (rec_seq (ex_no_run ! 0))) 5 = Inr gm_full"
    by code_simp
  have 3: "find_run gm_full = Some 2" by code_simp
  have 4: "find_run (rev gm_full) = Some 2" by code_simp
  from stage_two_row_bounds[OF 1 2 3 4] 1 2 3 4 show ?thesis by blast
qed

text \<open>
  C4 as stated fails: the comparison of the source distinguishes upper from lower case.
  The fourth row of \<open>ex_lower_row\<close> is the consensus in lower case; its match sequence
  is false everywhere, while the comparison without regard to case is true everywhere.
\<close>

theorem row_compare_case_sensitive:
  "alignment_consensus ex_lower_row = ''ACGTACGTACGT'' \<and>
   rec_seq (ex_lower_row ! 3) = ''acgtacgtacgt'' \<and>
   row_compare (alignment_consensus ex_lower_row) (rec_seq (ex_lower_row ! 3)) = replicate 12 False \<and>
   spec_row_compare (alignment_consensus ex_lower_row) (rec_seq (ex_lower_row ! 3))
     = replicate 12 True \<and>
   row_compare (alignment_consensus ex_lower_row) (rec_seq (ex_lower_row ! 3))
     \<noteq> spec_row_compare (alignment_consensus ex_lower_row) (rec_seq (ex_lower_row ! 3))"
proof -
  have 1: "alignment_consensus ex_lower_row = ''ACGTACGTACGT''" by code_simp
  have 2: "rec_seq (ex_lower_row ! 3) = ''acgtacgtacgt''" by code_simp
  have 3: "row_compare (alignment_consensus ex_lower_row) (rec_seq (ex_lower_row ! 3))
             = replicate 12 False"
    by code_simp
  have 4: "spec_row_compare (alignment_consensus ex_lower_row) (rec_seq (ex_lower_row ! 3))
             = replicate 12 True"
    by code_simp
  have 5: "replicate 12 False \<noteq> replicate 12 True" by code_simp
  from 1 2 3 4 5 show ?thesis by simp
qed

subsection \<open>The consensus\<close>

lemma fold_max_atoms:
  "fold max_atoms_step kvs (ms, k) = (ms', k') \<Longrightarrow>
     k \<le> k' \<and> (\<forall>kv\<in>set kvs. snd kv \<le> k') \<and> (k' = k \<or> k' \<in> snd ` set kvs) \<and>
     ms' = (if k = k' then ms else []) @ map fst (filter (\<lambda>kv. snd kv = k') kvs)"
proof (induction kvs arbitrary: ms k)
  case Nil
  then show ?case by simp
next
  case (Cons kv kvs)
  consider (gt) "k < snd kv" | (eq) "snd kv = k" | (lt) "snd kv < k"
    by linarith
  then show ?case
  proof cases
    case gt
    then have "max_atoms_step kv (ms, k) = ([fst kv], snd kv)" by (simp add: max_atoms_step_def)
    with Cons.prems have "fold max_atoms_step kvs ([fst kv], snd kv) = (ms', k')" by simp
    from Cons.IH[OF this] gt show ?thesis by auto
  next
    case eq
    then have "max_atoms_step kv (ms, k) = (ms @ [fst kv], k)" by (simp add: max_atoms_step_def)
    with Cons.prems have "fold max_atoms_step kvs (ms @ [fst kv], k) = (ms', k')" by simp
    from Cons.IH[OF this] eq show ?thesis by auto
  next
    case lt
    then have "max_atoms_step kv (ms, k) = (ms, k)" by (simp add: max_atoms_step_def)
    with Cons.prems have "fold max_atoms_step kvs (ms, k) = (ms', k')" by simp
    from Cons.IH[OF this] lt show ?thesis by auto
  qed
qed

lemma distinct_set_single:
  assumes "distinct xs" and "set xs = {c}"
  shows "xs = [c]"
proof -
  from distinct_card[OF assms(1)] assms(2) have "length xs = 1" by simp
  then obtain y where "xs = [y]" by (cases xs) auto
  with assms(2) show ?thesis by simp
qed

text \<open>The state of the \<open>max_atoms\<close> loop at its end: the largest count and the distinct
  characters that reach it.\<close>

lemma max_atoms_result:
  obtains K where "fold max_atoms_step (counter atoms) ([], 0)
                     = (filter (\<lambda>c. count_list atoms c = K) (remdups atoms), K)"
    and "\<forall>d\<in>set atoms. count_list atoms d \<le> K"
    and "K = 0 \<or> (\<exists>d\<in>set atoms. K = count_list atoms d)"
proof -
  obtain M K where r: "fold max_atoms_step (counter atoms) ([], 0) = (M, K)"
    by (cases "fold max_atoms_step (counter atoms) ([], 0)")
  note f = fold_max_atoms[OF r]
  from f have m: "M = map fst (filter (\<lambda>kv. snd kv = K) (counter atoms))" by simp
  have 1: "M = filter (\<lambda>c. count_list atoms c = K) (remdups atoms)"
    unfolding m by (simp add: counter_def filter_map comp_def)
  from f have "\<forall>kv\<in>set (counter atoms). snd kv \<le> K" by blast
  then have 2: "\<forall>d\<in>set atoms. count_list atoms d \<le> K"
    by (simp add: counter_def)
  from f have "K = 0 \<or> K \<in> snd ` set (counter atoms)" by blast
  then have 3: "K = 0 \<or> (\<exists>d\<in>set atoms. K = count_list atoms d)"
    by (auto simp: counter_def)
  from r 1 2 3 that show ?thesis by blast
qed

lemma consensus_char_iff:
  "consensus_char atoms = c \<and> c \<noteq> CHR ''X'' \<longleftrightarrow>
     c \<noteq> CHR ''X'' \<and> c \<in> set atoms \<and>
     (\<forall>d\<in>set atoms. d \<noteq> c \<longrightarrow> count_list atoms d < count_list atoms c) \<and>
     7 * length atoms \<le> 10 * count_list atoms c"
proof -
  obtain K where r: "fold max_atoms_step (counter atoms) ([], 0)
                     = (filter (\<lambda>c. count_list atoms c = K) (remdups atoms), K)"
    and le: "\<forall>d\<in>set atoms. count_list atoms d \<le> K"
    and att: "K = 0 \<or> (\<exists>d\<in>set atoms. K = count_list atoms d)"
    by (rule max_atoms_result)
  let ?M = "filter (\<lambda>c. count_list atoms c = K) (remdups atoms)"
  have cc: "consensus_char atoms =
              (if length ?M = 1 \<and> (7 / 10 :: rat) \<le> of_nat K / of_nat (length atoms)
               then hd ?M else CHR ''X'')"
    by (simp add: consensus_char_def r)
  have share: "(7 / 10 :: rat) \<le> of_nat K / of_nat (length atoms) \<longleftrightarrow> 7 * length atoms \<le> 10 * K"
    if "atoms \<noteq> []"
  proof -
    from that have pos: "(0::rat) < of_nat (length atoms)" by simp
    have "(7 / 10 :: rat) \<le> of_nat K / of_nat (length atoms)
            \<longleftrightarrow> (7::rat) * of_nat (length atoms) \<le> 10 * of_nat K"
      using pos by (simp add: field_simps)
    also have "\<dots> \<longleftrightarrow> (of_nat (7 * length atoms) :: rat) \<le> of_nat (10 * K)" by simp
    also have "\<dots> \<longleftrightarrow> 7 * length atoms \<le> 10 * K" by (simp only: of_nat_le_iff)
    finally show ?thesis .
  qed
  show ?thesis
  proof
    assume a: "consensus_char atoms = c \<and> c \<noteq> CHR ''X''"
    with cc have l1: "length ?M = 1" and sh: "(7 / 10 :: rat) \<le> of_nat K / of_nat (length atoms)"
      and hd: "hd ?M = c"
      by (auto split: if_splits)
    from l1 hd have M: "?M = [c]" by (cases ?M) auto
    then have "c \<in> set ?M" by simp
    then have c: "c \<in> set atoms" "count_list atoms c = K" by auto
    have "count_list atoms d < count_list atoms c" if "d \<in> set atoms" "d \<noteq> c" for d
    proof -
      from that(1) le have "count_list atoms d \<le> K" by simp
      moreover have "count_list atoms d \<noteq> K"
      proof
        assume "count_list atoms d = K"
        with that(1) have "d \<in> set ?M" by simp
        with M that(2) show False by simp
      qed
      ultimately show ?thesis using c(2) by simp
    qed
    moreover from c(1) have "atoms \<noteq> []" by auto
    ultimately show "c \<noteq> CHR ''X'' \<and> c \<in> set atoms \<and>
       (\<forall>d\<in>set atoms. d \<noteq> c \<longrightarrow> count_list atoms d < count_list atoms c) \<and>
       7 * length atoms \<le> 10 * count_list atoms c"
      using a c sh share by simp
  next
    assume g: "c \<noteq> CHR ''X'' \<and> c \<in> set atoms \<and>
       (\<forall>d\<in>set atoms. d \<noteq> c \<longrightarrow> count_list atoms d < count_list atoms c) \<and>
       7 * length atoms \<le> 10 * count_list atoms c"
    then have cin: "c \<in> set atoms" by simp
    then have "count_list atoms c \<noteq> 0" by (simp add: count_list_0_iff)
    then have pos: "0 < count_list atoms c" by simp
    from cin le have cK: "count_list atoms c \<le> K" by simp
    with pos att obtain d where d: "d \<in> set atoms" "K = count_list atoms d" by auto
    have "d = c"
    proof (rule ccontr)
      assume "d \<noteq> c"
      with g d(1) have "count_list atoms d < count_list atoms c" by simp
      with cK d(2) show False by simp
    qed
    with d have K: "K = count_list atoms c" by simp
    have "set ?M = {c}"
    proof
      show "set ?M \<subseteq> {c}"
      proof
        fix x assume "x \<in> set ?M"
        then have x: "x \<in> set atoms" "count_list atoms x = count_list atoms c"
          using K by simp_all
        have "x = c"
        proof (rule ccontr)
          assume "x \<noteq> c"
          with g x(1) have "count_list atoms x < count_list atoms c" by simp
          with x(2) show False by simp
        qed
        then show "x \<in> {c}" by simp
      qed
      show "{c} \<subseteq> set ?M" using cin K by simp
    qed
    moreover have "distinct ?M" by simp
    ultimately have "?M = [c]" by (intro distinct_set_single)
    moreover from cin have "atoms \<noteq> []" by auto
    ultimately show "consensus_char atoms = c \<and> c \<noteq> CHR ''X''"
      using g K share by (simp add: cc)
  qed
qed

lemma column_atoms_valid:
  assumes "valid_alignment a" and "n < get_alignment_length a"
  shows "column_atoms a n = filter (\<lambda>c. c \<noteq> CHR ''-'' \<and> c \<noteq> CHR ''.'') (column a n)"
proof -
  from assms have "\<forall>r\<in>set a. n < length (rec_seq r)"
    by (auto simp: valid_alignment_def dest: rectangular_rows)
  then have "filter (\<lambda>r. n < length (rec_seq r)) a = a" by (simp add: filter_id_conv)
  then show ?thesis by (simp add: column_atoms_def column_def)
qed

lemma alignment_consensus_nth:
  assumes "n < get_alignment_length a"
  shows "length (alignment_consensus a) = get_alignment_length a \<and>
         alignment_consensus a ! n =
           (if consensus_char (column_atoms a n) = CHR ''X'' then CHR ''-''
            else consensus_char (column_atoms a n))"
  using assms by (simp add: alignment_consensus_def dumb_consensus_def)

text \<open>
  C3 (amended). For a valid alignment the consensus has one character for each column.
  Let the atoms of a column be its characters other than \<open>-\<close> and \<open>.\<close>, upper and lower
  case kept apart. The consensus holds the character \<open>c\<close> at the column when \<open>c\<close> is
  an atom other than \<open>X\<close>, occurs more often than every other atom, and makes up at least
  0.7 of the atoms; when the column has no such character (a tie for the most frequent
  atom, a share below 0.7 of the atoms, no atom at all, or the winner \<open>X\<close>) it holds the
  gap marker.
\<close>

theorem consensus_rule:
  assumes "valid_alignment a" and "n < get_alignment_length a"
  shows "length (alignment_consensus a) = get_alignment_length a \<and>
    (\<forall>c. c \<noteq> CHR ''X'' \<and>
          c \<in> set (filter (\<lambda>c. c \<noteq> CHR ''-'' \<and> c \<noteq> CHR ''.'') (column a n)) \<and>
          (\<forall>d\<in>set (filter (\<lambda>c. c \<noteq> CHR ''-'' \<and> c \<noteq> CHR ''.'') (column a n)). d \<noteq> c \<longrightarrow>
             count_list (filter (\<lambda>c. c \<noteq> CHR ''-'' \<and> c \<noteq> CHR ''.'') (column a n)) d
               < count_list (filter (\<lambda>c. c \<noteq> CHR ''-'' \<and> c \<noteq> CHR ''.'') (column a n)) c) \<and>
          7 * length (filter (\<lambda>c. c \<noteq> CHR ''-'' \<and> c \<noteq> CHR ''.'') (column a n))
            \<le> 10 * count_list (filter (\<lambda>c. c \<noteq> CHR ''-'' \<and> c \<noteq> CHR ''.'') (column a n)) c
          \<longrightarrow> alignment_consensus a ! n = c) \<and>
    ((\<nexists>c. c \<noteq> CHR ''X'' \<and>
          c \<in> set (filter (\<lambda>c. c \<noteq> CHR ''-'' \<and> c \<noteq> CHR ''.'') (column a n)) \<and>
          (\<forall>d\<in>set (filter (\<lambda>c. c \<noteq> CHR ''-'' \<and> c \<noteq> CHR ''.'') (column a n)). d \<noteq> c \<longrightarrow>
             count_list (filter (\<lambda>c. c \<noteq> CHR ''-'' \<and> c \<noteq> CHR ''.'') (column a n)) d
               < count_list (filter (\<lambda>c. c \<noteq> CHR ''-'' \<and> c \<noteq> CHR ''.'') (column a n)) c) \<and>
          7 * length (filter (\<lambda>c. c \<noteq> CHR ''-'' \<and> c \<noteq> CHR ''.'') (column a n))
            \<le> 10 * count_list (filter (\<lambda>c. c \<noteq> CHR ''-'' \<and> c \<noteq> CHR ''.'') (column a n)) c)
       \<longrightarrow> alignment_consensus a ! n = CHR ''-'')"
proof -
  let ?atoms = "filter (\<lambda>c. c \<noteq> CHR ''-'' \<and> c \<noteq> CHR ''.'') (column a n)"
  let ?good = "\<lambda>c. c \<noteq> CHR ''X'' \<and> c \<in> set ?atoms \<and>
     (\<forall>d\<in>set ?atoms. d \<noteq> c \<longrightarrow> count_list ?atoms d < count_list ?atoms c) \<and>
     7 * length ?atoms \<le> 10 * count_list ?atoms c"
  from column_atoms_valid[OF assms] have ca: "column_atoms a n = ?atoms" .
  note nth = alignment_consensus_nth[OF assms(2), unfolded ca]
  have iff: "consensus_char ?atoms = c \<and> c \<noteq> CHR ''X'' \<longleftrightarrow> ?good c" for c
    by (rule consensus_char_iff)
  have 1: "alignment_consensus a ! n = c" if "?good c" for c
  proof -
    from that iff[of c] have "consensus_char ?atoms = c" "c \<noteq> CHR ''X''" by blast+
    with nth show ?thesis by simp
  qed
  have 2: "alignment_consensus a ! n = CHR ''-''" if "\<nexists>c. ?good c"
  proof -
    have "consensus_char ?atoms = CHR ''X''"
    proof (rule ccontr)
      assume "consensus_char ?atoms \<noteq> CHR ''X''"
      with iff[of "consensus_char ?atoms"] have "?good (consensus_char ?atoms)" by blast
      with that show False by blast
    qed
    with nth show ?thesis by simp
  qed
  show ?thesis
  proof (intro conjI allI impI)
    show "length (alignment_consensus a) = get_alignment_length a" using nth by simp
  next
    fix c assume "?good c"
    then show "alignment_consensus a ! n = c" by (rule 1)
  next
    assume "\<nexists>c. ?good c"
    then show "alignment_consensus a ! n = CHR ''-''" by (rule 2)
  qed
qed

theorem consensus_rule_witness:
  "valid_alignment ex_consensus \<and> 0 < get_alignment_length ex_consensus \<and>
   filter (\<lambda>c. c \<noteq> CHR ''-'' \<and> c \<noteq> CHR ''.'') (column ex_consensus 0) = ''AA'' \<and>
   length (alignment_consensus ex_consensus) = get_alignment_length ex_consensus \<and>
   alignment_consensus ex_consensus ! 0 = CHR ''A''"
proof -
  have 1: "valid_alignment ex_consensus" by code_simp
  have 2: "0 < get_alignment_length ex_consensus" by code_simp
  have 3: "filter (\<lambda>c. c \<noteq> CHR ''-'' \<and> c \<noteq> CHR ''.'') (column ex_consensus 0) = ''AA''"
    by code_simp
  have 4: "CHR ''A'' \<noteq> CHR ''X'' \<and> CHR ''A'' \<in> set ''AA'' \<and>
           (\<forall>d\<in>set ''AA''. d \<noteq> CHR ''A'' \<longrightarrow> count_list ''AA'' d < count_list ''AA'' CHR ''A'') \<and>
           7 * length ''AA'' \<le> 10 * count_list ''AA'' CHR ''A''"
    by code_simp
  note th = consensus_rule[OF 1 2, unfolded 3]
  note a = th[THEN conjunct1]
  note b = th[THEN conjunct2, THEN conjunct1, rule_format, OF 4]
  from 1 2 3 a b show ?thesis by (intro conjI)
qed

text \<open>
  C3 as stated fails. In \<open>ex_consensus\<close> the first column holds \<open>A, A, -, -\<close>: the
  source calls \<open>A\<close> (two of two atoms), the claim's rule the gap marker (two of four
  rows). The second column holds \<open>A, A, a, a\<close>: the source finds a tie between \<open>A\<close> and
  \<open>a\<close> and emits the gap marker, the claim's rule calls \<open>A\<close>.
\<close>

theorem consensus_departs:
  "column ex_consensus 0 = ''AA--'' \<and> column ex_consensus 1 = ''AAaa'' \<and>
   alignment_consensus ex_consensus = ''A-C'' \<and> spec_consensus ex_consensus = ''-AC'' \<and>
   alignment_consensus ex_consensus \<noteq> spec_consensus ex_consensus"
proof -
  have 1: "column ex_consensus 0 = ''AA--''" by code_simp
  have 2: "column ex_consensus 1 = ''AAaa''" by code_simp
  have 3: "alignment_consensus ex_consensus = ''A-C''" by code_simp
  have 4: "spec_consensus ex_consensus = ''-AC''" by code_simp
  have 5: "''A-C'' \<noteq> ''-AC''" by simp
  from 1 2 3 4 5 show ?thesis by (simp only: simp_thms)
qed

end
